theory Spec2Isabelle
  imports Complex_Main
begin

section \<open>Data model\<close>

text \<open>
  A kline is the JSON record written by \<^verbatim>\<open>transform_klines\<close> (kline.py): eleven named
  fields. The record is polymorphic in the type of its two time columns: they are strings
  (\<^verbatim>\<open>'%Y-%m-%d %H:%M:%S'\<close>) in the JSON files, and datetimes once parsed. A datetime
  is modelled as a whole number of seconds since the epoch (the format has no fraction of a
  second), so \<^verbatim>\<open>timedelta(hours=1)\<close> is 3600. A cell that pandas holds as NaN / NaT
  is \<open>None\<close>. The column \<^verbatim>\<open>open_time\<close> is taken without missing cells: every bar of
  the sequence that is segmented has its timestamp. Prices are exact reals; floating-point
  rounding is not modelled. The dates are unbounded, except where the range of Python's
  datetime is written out (the second model of the validator, below).
\<close>

record 't kline =
  open_time :: 't
  open_price :: "real option"
  high_price :: "real option"
  low_price :: "real option"
  close_price :: "real option"
  volume :: "real option"
  close_time :: "'t option"
  quote_asset_volume :: "real option"
  number_of_trades :: "int option"
  taker_buy_base_asset_volume :: "real option"
  taker_buy_quote_asset_volume :: "real option"

type_synonym datetime = int

definition hour :: int where
  "hour = 3600"

text \<open>The Python exceptions that the modelled code can raise.\<close>

datatype py_error = IndexError | ValueError | TypeError | KeyError | OverflowError

section \<open>split\_and\_calc\_index.py: cutting the frame into hourly runs\<close>

text \<open>
  Lines 31 to 44 of \<^verbatim>\<open>process_crypto_data\<close>. The frame \<^verbatim>\<open>df\<close> is the list of its rows
  after the sort of line 27. \<^verbatim>\<open>df.iloc[0]\<close> raises IndexError on a frame without rows.
  The loop compares row \<open>i\<close> with row \<open>i - 1\<close> of the frame; \<open>segment_loop\<close> carries that
  previous row, the rows still to visit, and the two accumulators of the source.
\<close>

fun segment_loop ::
  "datetime kline \<Rightarrow> datetime kline list \<Rightarrow> datetime kline list list \<Rightarrow> datetime kline list
    \<Rightarrow> datetime kline list list" where
  "segment_loop previous [] segments current_segment = segments @ [current_segment]"
| "segment_loop previous (row # rest) segments current_segment =
     (if open_time row - open_time previous = hour
      then segment_loop row rest segments (current_segment @ [row])
      else segment_loop row rest (segments @ [current_segment]) [row])"

definition split_into_segments :: "datetime kline list \<Rightarrow> py_error + datetime kline list list" where
  "split_into_segments df =
     (case df of
        [] \<Rightarrow> Inl IndexError
      | first # rest \<Rightarrow> Inr (segment_loop first rest [] [first]))"

text \<open>A run of rows in which each row opens exactly one hour after the one before it.\<close>

fun hourly_run :: "datetime kline list \<Rightarrow> bool" where
  "hourly_run (a # b # rest) = (open_time b - open_time a = hour \<and> hourly_run (b # rest))"
| "hourly_run _ = True"

section \<open>split\_and\_calc\_index.py: indicators, trimming and output of one segment\<close>

text \<open>
  \<^verbatim>\<open>fillna(method='ffill')\<close> replaces a missing cell by the last present cell above it in
  its column, \<^verbatim>\<open>fillna(method='bfill')\<close> by the next present cell below it. A cell with
  nothing to copy from stays missing.
\<close>

fun ffill_from :: "'a option \<Rightarrow> 'a option list \<Rightarrow> 'a option list" where
  "ffill_from seen [] = []"
| "ffill_from seen (None # cells) = seen # ffill_from seen cells"
| "ffill_from seen (Some v # cells) = Some v # ffill_from (Some v) cells"

definition ffill :: "'a option list \<Rightarrow> 'a option list" where
  "ffill column = ffill_from None column"

fun bfill :: "'a option list \<Rightarrow> 'a option list" where
  "bfill [] = []"
| "bfill (Some v # cells) = Some v # bfill cells"
| "bfill (None # cells) = (case bfill cells of [] \<Rightarrow> [None] | below # filled \<Rightarrow> below # below # filled)"

definition ffill_frame :: "'t kline list \<Rightarrow> 't kline list" where
  "ffill_frame seg =
     map (\<lambda>i. \<lparr>open_time = open_time (seg ! i),
               open_price = ffill (map open_price seg) ! i,
               high_price = ffill (map high_price seg) ! i,
               low_price = ffill (map low_price seg) ! i,
               close_price = ffill (map close_price seg) ! i,
               volume = ffill (map volume seg) ! i,
               close_time = ffill (map close_time seg) ! i,
               quote_asset_volume = ffill (map quote_asset_volume seg) ! i,
               number_of_trades = ffill (map number_of_trades seg) ! i,
               taker_buy_base_asset_volume = ffill (map taker_buy_base_asset_volume seg) ! i,
               taker_buy_quote_asset_volume = ffill (map taker_buy_quote_asset_volume seg) ! i\<rparr>)
       [0..<length seg]"

definition bfill_frame :: "'t kline list \<Rightarrow> 't kline list" where
  "bfill_frame seg =
     map (\<lambda>i. \<lparr>open_time = open_time (seg ! i),
               open_price = bfill (map open_price seg) ! i,
               high_price = bfill (map high_price seg) ! i,
               low_price = bfill (map low_price seg) ! i,
               close_price = bfill (map close_price seg) ! i,
               volume = bfill (map volume seg) ! i,
               close_time = bfill (map close_time seg) ! i,
               quote_asset_volume = bfill (map quote_asset_volume seg) ! i,
               number_of_trades = bfill (map number_of_trades seg) ! i,
               taker_buy_base_asset_volume = bfill (map taker_buy_base_asset_volume seg) ! i,
               taker_buy_quote_asset_volume = bfill (map taker_buy_quote_asset_volume seg) ! i\<rparr>)
       [0..<length seg]"

text \<open>
  The filling in the words of the specification: a missing cell takes the nearest earlier
  value of its column, and where there is none, the nearest later value. The nearest
  earlier value at row \<open>i\<close> is the last present cell of rows \<open>0\<close> to \<open>i\<close>, the nearest later
  value the first present cell from row \<open>i\<close> on.
\<close>

definition nearest_earlier :: "'a option list \<Rightarrow> nat \<Rightarrow> 'a option" where
  "nearest_earlier column i =
     (case filter (\<lambda>cell. cell \<noteq> None) (take (Suc i) column) of
        [] \<Rightarrow> None
      | cell # cells \<Rightarrow> last (cell # cells))"

definition nearest_later :: "'a option list \<Rightarrow> nat \<Rightarrow> 'a option" where
  "nearest_later column i =
     (case filter (\<lambda>cell. cell \<noteq> None) (drop i column) of
        [] \<Rightarrow> None
      | cell # _ \<Rightarrow> cell)"

definition spec_fill :: "'a option list \<Rightarrow> 'a option list" where
  "spec_fill column =
     map (\<lambda>i. case nearest_earlier column i of
                Some v \<Rightarrow> Some v
              | None \<Rightarrow> nearest_later column i)
       [0..<length column]"

text \<open>\<^verbatim>\<open>seg.isnull().values.any()\<close>: some cell of the frame is missing.\<close>

definition isnull_any :: "'t kline list \<Rightarrow> bool" where
  "isnull_any seg =
     list_ex (\<lambda>row. open_price row = None \<or> high_price row = None \<or> low_price row = None
        \<or> close_price row = None \<or> volume row = None \<or> close_time row = None
        \<or> quote_asset_volume row = None \<or> number_of_trades row = None
        \<or> taker_buy_base_asset_volume row = None \<or> taker_buy_quote_asset_volume row = None) seg"

text \<open>Lines 58 to 61: the frame on which the indicators are computed.\<close>

definition fillna :: "'t kline list \<Rightarrow> 't kline list" where
  "fillna seg = (if isnull_any seg then bfill_frame (ffill_frame seg) else seg)"

text \<open>
  \<^verbatim>\<open>column.rolling(window=w).mean()\<close>: at row \<open>i\<close> the mean of the \<open>w\<close> cells ending at
  \<open>i\<close>; missing while fewer than \<open>w\<close> rows have been seen, or when a cell of the window is
  missing.
\<close>

definition rolling_mean :: "nat \<Rightarrow> real option list \<Rightarrow> real option list" where
  "rolling_mean window column =
     map (\<lambda>i. if Suc i < window then None
              else (let cells = take window (drop (Suc i - window) column)
                    in if None \<in> set cells then None
                       else Some (sum_list (map the cells) / real window)))
       [0..<length column]"

text \<open>Arithmetic on cells: a missing operand gives a missing result.\<close>

fun cell_op :: "(real \<Rightarrow> real \<Rightarrow> real) \<Rightarrow> real option \<Rightarrow> real option \<Rightarrow> real option" where
  "cell_op f (Some x) (Some y) = Some (f x y)"
| "cell_op f _ _ = None"

text \<open>The value of a cell as a list: empty for a missing cell.\<close>

fun present :: "'a option \<Rightarrow> 'a list" where
  "present None = []"
| "present (Some v) = [v]"

text \<open>
  The columns that the calls into the library \<^verbatim>\<open>ta\<close> add to the frame (lines 72 to 124).
  The library is not part of the repository: the pipeline takes it as a parameter \<open>ta\<close>.
  On the frame \<open>seg\<close> the calls either raise, \<open>ta seg = Inl e\<close>, or return, \<open>ta seg = Inr cells\<close>
  with \<open>cells i\<close> the cells computed for row \<open>i\<close>. Nothing is assumed about when the calls
  raise or about the values of the cells.
\<close>

record ta_columns =
  ATR50 :: "real option"
  RSI :: "real option"
  MACD :: "real option"
  MACD_Signal :: "real option"
  MACD_Hist :: "real option"
  Bollinger_High :: "real option"
  Bollinger_Low :: "real option"
  Bollinger_Middle :: "real option"
  Stochastic_K :: "real option"
  Stochastic_D :: "real option"
  ADX :: "real option"
  ADX_PDI :: "real option"
  ADX_MDI :: "real option"
  Williams_R :: "real option"
  CMF :: "real option"
  MFI :: "real option"
  EMA12 :: "real option"
  EMA26 :: "real option"

record 't indicator_row =
  bar :: "'t kline"
  MA7 :: "real option"
  MA25 :: "real option"
  MA99 :: "real option"
  MA50 :: "real option"
  Keltner_Upper :: "real option"
  Keltner_Lower :: "real option"
  ta_cells :: ta_columns

definition multiplier :: real where
  "multiplier = 2.75"

type_synonym ta_library = "datetime kline list \<Rightarrow> py_error + (nat \<Rightarrow> ta_columns)"

text \<open>The frame with its indicator columns, once the library has returned \<open>cells\<close>.\<close>

definition add_indicators ::
  "(nat \<Rightarrow> ta_columns) \<Rightarrow> datetime kline list \<Rightarrow> datetime indicator_row list" where
  "add_indicators cells seg =
     map (\<lambda>i. \<lparr>bar = seg ! i,
               MA7 = rolling_mean 7 (map close_price seg) ! i,
               MA25 = rolling_mean 25 (map close_price seg) ! i,
               MA99 = rolling_mean 99 (map close_price seg) ! i,
               MA50 = rolling_mean 50 (map close_price seg) ! i,
               Keltner_Upper = cell_op (+) (rolling_mean 50 (map close_price seg) ! i)
                                 (cell_op (*) (Some multiplier) (ATR50 (cells i))),
               Keltner_Lower = cell_op (-) (rolling_mean 50 (map close_price seg) ! i)
                                 (cell_op (*) (Some multiplier) (ATR50 (cells i))),
               ta_cells = cells i\<rparr>)
       [0..<length seg]"

text \<open>Lines 130 and 131: the two time columns become strings; \<open>strftime\<close> is the library's
  formatting of a datetime with \<^verbatim>\<open>'%Y-%m-%d %H:%M:%S'\<close>.\<close>

definition strftime_row :: "(datetime \<Rightarrow> string) \<Rightarrow> datetime indicator_row \<Rightarrow> string indicator_row" where
  "strftime_row strftime row =
     \<lparr>bar = \<lparr>open_time = strftime (open_time (bar row)),
              open_price = open_price (bar row),
              high_price = high_price (bar row),
              low_price = low_price (bar row),
              close_price = close_price (bar row),
              volume = volume (bar row),
              close_time = map_option strftime (close_time (bar row)),
              quote_asset_volume = quote_asset_volume (bar row),
              number_of_trades = number_of_trades (bar row),
              taker_buy_base_asset_volume = taker_buy_base_asset_volume (bar row),
              taker_buy_quote_asset_volume = taker_buy_quote_asset_volume (bar row)\<rparr>,
      MA7 = MA7 row, MA25 = MA25 row, MA99 = MA99 row, MA50 = MA50 row,
      Keltner_Upper = Keltner_Upper row, Keltner_Lower = Keltner_Lower row,
      ta_cells = ta_cells row\<rparr>"

text \<open>Lines 54 to 134 for one accepted segment: fill, add the indicator columns, drop the
  first 99 rows, format the times. An exception of the library ends them.\<close>

definition processed_data ::
  "ta_library \<Rightarrow> (datetime \<Rightarrow> string) \<Rightarrow> datetime kline list
    \<Rightarrow> py_error + string indicator_row list" where
  "processed_data ta strftime segment =
     (case ta (fillna segment) of
        Inl e \<Rightarrow> Inl e
      | Inr cells \<Rightarrow>
          Inr (map (strftime_row strftime) (drop 99 (add_indicators cells (fillna segment)))))"

text \<open>
  What a run leaves behind: the segment files written (number and rows), the list
  \<^verbatim>\<open>combined_processed_segments\<close>, the combined file once it is written, and the warnings
  logged. An exception ends the run; the state at that moment is kept beside it.
\<close>

record combined_entry =
  segment_id :: nat
  start_time :: string
  end_time :: "string option"
  records :: "string indicator_row list"

datatype warning = Contains_missing_values nat | Discarded_insufficient_length nat nat

record run_state =
  segment_files :: "(nat \<times> string indicator_row list) list"
  combined_processed_segments :: "combined_entry list"
  combined_file :: "combined_entry list option"
  warnings :: "warning list"

definition start_state :: run_state where
  "start_state = \<lparr>segment_files = [], combined_processed_segments = [], combined_file = None,
                   warnings = []\<rparr>"

text \<open>The body of the loop of line 52 for the segment at position \<open>idx\<close>.\<close>

definition process_segment ::
  "ta_library \<Rightarrow> (datetime \<Rightarrow> string) \<Rightarrow> nat \<Rightarrow> datetime kline list
    \<Rightarrow> run_state \<Rightarrow> py_error \<times> run_state + run_state" where
  "process_segment ta strftime idx segment st =
     (if 99 \<le> length segment then
        (let st1 = (if isnull_any segment
                    then st\<lparr>warnings := warnings st @ [Contains_missing_values (idx + 1)]\<rparr>
                    else st)
         in (case processed_data ta strftime segment of
               Inl e \<Rightarrow> Inl (e, st1)
             | Inr rows \<Rightarrow>
                 (let st2 = st1\<lparr>segment_files := segment_files st1 @ [(idx + 1, rows)]\<rparr>
                  in (case rows of
                        [] \<Rightarrow> Inl (IndexError, st2)
                      | first_row # _ \<Rightarrow>
                          Inr (st2\<lparr>combined_processed_segments :=
                                 combined_processed_segments st2 @
                                 [\<lparr>segment_id = idx + 1,
                                   start_time = open_time (bar first_row),
                                   end_time = close_time (bar (last rows)),
                                   records = rows\<rparr>]\<rparr>)))))
      else Inr (st\<lparr>warnings := warnings st @
                  [Discarded_insufficient_length (idx + 1) (length segment)]\<rparr>))"

fun process_segments ::
  "ta_library \<Rightarrow> (datetime \<Rightarrow> string) \<Rightarrow> nat
    \<Rightarrow> datetime kline list list \<Rightarrow> run_state \<Rightarrow> py_error \<times> run_state + run_state" where
  "process_segments ta strftime idx [] st = Inr st"
| "process_segments ta strftime idx (segment # rest) st =
     (case process_segment ta strftime idx segment st of
        Inl raised \<Rightarrow> Inl raised
      | Inr st' \<Rightarrow> process_segments ta strftime (Suc idx) rest st')"

text \<open>\<^verbatim>\<open>process_crypto_data\<close> from line 31 on, for the sorted frame \<open>df\<close>.\<close>

definition process_crypto_data ::
  "ta_library \<Rightarrow> (datetime \<Rightarrow> string) \<Rightarrow> datetime kline list
    \<Rightarrow> py_error \<times> run_state + run_state" where
  "process_crypto_data ta strftime df =
     (case split_into_segments df of
        Inl e \<Rightarrow> Inl (e, start_state)
      | Inr segments \<Rightarrow>
          (case process_segments ta strftime 0 segments start_state of
             Inl raised \<Rightarrow> Inl raised
           | Inr st \<Rightarrow> Inr (st\<lparr>combined_file := Some (combined_processed_segments st)\<rparr>)))"

section \<open>validate\_json.py: the scan for duplicate and missing hours\<close>

text \<open>
  \<^verbatim>\<open>validate_klines\<close> reads the string \<^verbatim>\<open>open_time\<close> of every kline. \<open>strptime\<close> is the
  library's parser for \<^verbatim>\<open>'%Y-%m-%d %H:%M:%S'\<close> followed by the tagging with UTC: it
  returns the datetime or raises. \<open>strftime\<close> is the library's formatting with the same
  format. Both are parameters. The list comprehension of line 48 stops at the first
  exception; the list \<^verbatim>\<open>times\<close> of the source is \<open>time_list\<close> here.
\<close>

fun parse_times ::
  "(string \<Rightarrow> py_error + datetime) \<Rightarrow> string kline list \<Rightarrow> py_error + datetime list" where
  "parse_times strptime [] = Inr []"
| "parse_times strptime (k # klines) =
     (case strptime (open_time k) of
        Inl e \<Rightarrow> Inl e
      | Inr t \<Rightarrow> (case parse_times strptime klines of
                    Inl e \<Rightarrow> Inl e
                  | Inr parsed \<Rightarrow> Inr (t # parsed)))"

text \<open>
  The loop of lines 53 to 64 over \<^verbatim>\<open>times[i-1]\<close> (\<open>previous\<close>) and \<^verbatim>\<open>times[i]\<close>. The
  operator \<^verbatim>\<open>//\<close> on two timedeltas is floor division, as \<open>div\<close> is on \<open>int\<close>, and
  \<^verbatim>\<open>range(1, missing_hours + 1)\<close> is \<open>[1..missing_hours]\<close>, empty when \<open>missing_hours < 1\<close>.
\<close>

fun scan_loop ::
  "(datetime \<Rightarrow> string) \<Rightarrow> datetime \<Rightarrow> datetime list \<Rightarrow> datetime list \<Rightarrow> string list
    \<Rightarrow> datetime list \<times> string list" where
  "scan_loop strftime previous [] duplicates missing = (duplicates, missing)"
| "scan_loop strftime previous (actual_time # rest) duplicates missing =
     (let expected_time = previous + hour in
      if actual_time = previous
      then scan_loop strftime actual_time rest (duplicates @ [actual_time]) missing
      else if actual_time \<noteq> expected_time
      then (let delta = actual_time - expected_time;
                missing_hours = delta div hour
            in scan_loop strftime actual_time rest duplicates
                 (missing @ map (\<lambda>j. strftime (expected_time + hour * (j - 1))) [1..missing_hours]))
      else scan_loop strftime actual_time rest duplicates missing)"

definition scan_times :: "(datetime \<Rightarrow> string) \<Rightarrow> datetime list \<Rightarrow> datetime list \<times> string list" where
  "scan_times strftime time_list =
     (case time_list of
        [] \<Rightarrow> ([], [])
      | first # rest \<Rightarrow> scan_loop strftime first rest [] [])"

text \<open>
  The message returned beside the flag, by its content: the two fixed texts, the text of
  the format error, or the lines of \<^verbatim>\<open>errors\<close>. The line for duplicates lists every
  duplicate; the line for missing hours gives their number, the first ten of them, and the
  dots that are printed when there are more than twenty.
\<close>

datatype error_line = Duplicates_found "string list" | Missing_found nat "string list" bool

datatype message = Klines_empty | Time_format_error | Errors "error_line list" | All_hourly

definition validate_klines ::
  "(string \<Rightarrow> py_error + datetime) \<Rightarrow> (datetime \<Rightarrow> string) \<Rightarrow> string kline list
    \<Rightarrow> py_error + bool \<times> message" where
  "validate_klines strptime strftime klines =
     (if klines = [] then Inr (False, Klines_empty)
      else (case parse_times strptime klines of
              Inl e \<Rightarrow> (if e = ValueError then Inr (False, Time_format_error) else Inl e)
            | Inr time_list \<Rightarrow>
                (case scan_times strftime time_list of
                   (duplicates, missing) \<Rightarrow>
                     if duplicates \<noteq> [] \<or> missing \<noteq> []
                     then Inr (False, Errors
                            ((if duplicates \<noteq> [] then [Duplicates_found (map strftime duplicates)] else [])
                             @ (if missing \<noteq> []
                                then [Missing_found (length missing) (take 10 missing) (20 < length missing)]
                                else [])))
                     else Inr (True, All_hourly))))"

subsection \<open>The same function with its exceptions\<close>

text \<open>
  The definitions above take klines whose \<^verbatim>\<open>open_time\<close> is a string and compute with
  unbounded dates. What \<^verbatim>\<open>json.load\<close> hands to \<^verbatim>\<open>validate_klines\<close> can also be a record
  without the field, for which \<^verbatim>\<open>k['open_time']\<close> raises KeyError, or with a value there that
  is not a string (null, a number), for which the parser raises TypeError; only ValueError
  is caught (line 49). Python's datetime ends with the year 9999:
  \<^verbatim>\<open>times[i-1] + timedelta(hours=1)\<close> (line 54, the first statement of the loop body) raises
  OverflowError when the sum is later than 9999-12-31 23:59:59. The other operations of the
  loop stay between two timestamps of the list. The definitions below are the same lines
  with these exceptions written out.
\<close>

datatype json_field = Absent | Not_str | Str string

definition datetime_max :: datetime where
  "datetime_max = 253402300799"

fun read_times ::
  "(string \<Rightarrow> py_error + datetime) \<Rightarrow> json_field kline list \<Rightarrow> py_error + datetime list" where
  "read_times strptime [] = Inr []"
| "read_times strptime (k # klines) =
     (case open_time k of
        Absent \<Rightarrow> Inl KeyError
      | Not_str \<Rightarrow> Inl TypeError
      | Str s \<Rightarrow>
          (case strptime s of
             Inl e \<Rightarrow> Inl e
           | Inr t \<Rightarrow> (case read_times strptime klines of
                         Inl e \<Rightarrow> Inl e
                       | Inr parsed \<Rightarrow> Inr (t # parsed))))"

fun scan_loop_raising ::
  "(datetime \<Rightarrow> string) \<Rightarrow> datetime \<Rightarrow> datetime list \<Rightarrow> datetime list \<Rightarrow> string list
    \<Rightarrow> py_error + datetime list \<times> string list" where
  "scan_loop_raising strftime previous [] duplicates missing = Inr (duplicates, missing)"
| "scan_loop_raising strftime previous (actual_time # rest) duplicates missing =
     (if datetime_max < previous + hour then Inl OverflowError
      else
        (let expected_time = previous + hour in
         if actual_time = previous
         then scan_loop_raising strftime actual_time rest (duplicates @ [actual_time]) missing
         else if actual_time \<noteq> expected_time
         then (let delta = actual_time - expected_time;
                   missing_hours = delta div hour
               in scan_loop_raising strftime actual_time rest duplicates
                    (missing @ map (\<lambda>j. strftime (expected_time + hour * (j - 1)))
                       [1..missing_hours]))
         else scan_loop_raising strftime actual_time rest duplicates missing))"

definition scan_times_raising ::
  "(datetime \<Rightarrow> string) \<Rightarrow> datetime list \<Rightarrow> py_error + datetime list \<times> string list" where
  "scan_times_raising strftime time_list =
     (case time_list of
        [] \<Rightarrow> Inr ([], [])
      | first # rest \<Rightarrow> scan_loop_raising strftime first rest [] [])"

definition validate_klines_raising ::
  "(string \<Rightarrow> py_error + datetime) \<Rightarrow> (datetime \<Rightarrow> string) \<Rightarrow> json_field kline list
    \<Rightarrow> py_error + bool \<times> message" where
  "validate_klines_raising strptime strftime klines =
     (if klines = [] then Inr (False, Klines_empty)
      else (case read_times strptime klines of
              Inl e \<Rightarrow> (if e = ValueError then Inr (False, Time_format_error) else Inl e)
            | Inr time_list \<Rightarrow>
                (case scan_times_raising strftime time_list of
                   Inl e \<Rightarrow> Inl e
                 | Inr (duplicates, missing) \<Rightarrow>
                     if duplicates \<noteq> [] \<or> missing \<noteq> []
                     then Inr (False, Errors
                            ((if duplicates \<noteq> [] then [Duplicates_found (map strftime duplicates)] else [])
                             @ (if missing \<noteq> []
                                then [Missing_found (length missing) (take 10 missing) (20 < length missing)]
                                else [])))
                     else Inr (True, All_hourly))))"

text \<open>A record that the list comprehension of line 48 reads: its \<^verbatim>\<open>open_time\<close> is a
  string that the parser accepts.\<close>

definition readable :: "(string \<Rightarrow> py_error + datetime) \<Rightarrow> json_field kline \<Rightarrow> bool" where
  "readable strptime k =
     (case open_time k of
        Str s \<Rightarrow> (case strptime s of Inr t \<Rightarrow> True | Inl e \<Rightarrow> False)
      | _ \<Rightarrow> False)"

text \<open>A list of timestamps in which each is one hour after the one before it.\<close>

fun hourly_times :: "datetime list \<Rightarrow> bool" where
  "hourly_times (a # b # rest) = (b = a + hour \<and> hourly_times (b # rest))"
| "hourly_times _ = True"

section \<open>generate\_training\_dataset.py: the average true range\<close>

text \<open>
  Lines 43 to 52 of \<^verbatim>\<open>calculate_indicators\<close>, column by column. \<^verbatim>\<open>shift(1)\<close> moves a
  column down by one row and leaves the first cell missing; \<^verbatim>\<open>max(axis=1)\<close> takes the
  largest present cell of a row and is missing only when all are.
\<close>

definition shift1 :: "'a option list \<Rightarrow> 'a option list" where
  "shift1 column = (case column of [] \<Rightarrow> [] | _ # _ \<Rightarrow> None # butlast column)"

definition max_skipna :: "real option list \<Rightarrow> real option" where
  "max_skipna cells =
     (case concat (map present cells) of [] \<Rightarrow> None | v # vs \<Rightarrow> Some (fold max vs v))"

definition previous_close :: "'t kline list \<Rightarrow> real option list" where
  "previous_close df = shift1 (map close_price df)"

definition tr1 :: "'t kline list \<Rightarrow> real option list" where
  "tr1 df = map2 (cell_op (-)) (map high_price df) (map low_price df)"

definition tr2 :: "'t kline list \<Rightarrow> real option list" where
  "tr2 df = map (map_option abs) (map2 (cell_op (-)) (map high_price df) (previous_close df))"

definition tr3 :: "'t kline list \<Rightarrow> real option list" where
  "tr3 df = map (map_option abs) (map2 (cell_op (-)) (map low_price df) (previous_close df))"

definition TR :: "'t kline list \<Rightarrow> real option list" where
  "TR df = map (\<lambda>i. max_skipna [tr1 df ! i, tr2 df ! i, tr3 df ! i]) [0..<length df]"

definition ATR50_column :: "'t kline list \<Rightarrow> real option list" where
  "ATR50_column df = rolling_mean 50 (TR df)"

text \<open>
  The average true range in the words of the specification, on the three price series:
  the true range of a bar is the largest of high minus low, the distance from the high to
  the previous close and the distance from the low to the previous close; the first bar
  has no previous close and its true range is high minus low; the average over a window is
  the plain mean of the true ranges of the window's bars.
\<close>

definition spec_true_range :: "real list \<Rightarrow> real list \<Rightarrow> real list \<Rightarrow> nat \<Rightarrow> real" where
  "spec_true_range high low close i =
     (if i = 0 then high ! 0 - low ! 0
      else max (high ! i - low ! i)
             (max \<bar>high ! i - close ! (i - 1)\<bar> \<bar>low ! i - close ! (i - 1)\<bar>))"

definition spec_ATR :: "nat \<Rightarrow> real list \<Rightarrow> real list \<Rightarrow> real list \<Rightarrow> nat \<Rightarrow> real" where
  "spec_ATR window high low close i =
     sum_list (map (spec_true_range high low close) [Suc i - window..<Suc i]) / real window"

section \<open>Concrete inputs\<close>

text \<open>A row with every cell present, for concrete inputs: it opens at \<open>t\<close>, closes one
  second before the next hour and trades at price \<open>p\<close>.\<close>

definition sample_kline :: "datetime \<Rightarrow> real \<Rightarrow> datetime kline" where
  "sample_kline t p =
     \<lparr>open_time = t, open_price = Some p, high_price = Some (p + 1), low_price = Some (p - 1),
      close_price = Some p, volume = Some 10, close_time = Some (t + 3599),
      quote_asset_volume = Some (10 * p), number_of_trades = Some 5,
      taker_buy_base_asset_volume = Some 4, taker_buy_quote_asset_volume = Some (4 * p)\<rparr>"

text \<open>
  Instances of the two library parameters: a table of what the parser and the formatting
  compute on a few times of January 2024 and on one of the last hour of the year 9999.
  The parser raises ValueError on any other string, as the library does on a string that
  is not a time.
\<close>

definition sample_times :: "(string \<times> datetime) list" where
  "sample_times =
     [(''2024-01-01 00:00:00'', 1704067200), (''2024-01-01 00:30:00'', 1704069000),
      (''2024-01-01 01:00:00'', 1704070800), (''2024-01-01 01:30:00'', 1704072600),
      (''2024-01-01 02:00:00'', 1704074400), (''2024-01-01 03:00:00'', 1704078000),
      (''2024-01-05 03:00:00'', 1704423600), (''2024-01-05 03:59:59'', 1704427199),
      (''9999-12-31 23:30:00'', 253402299000)]"

definition sample_strptime :: "string \<Rightarrow> py_error + datetime" where
  "sample_strptime s = (case map_of sample_times s of None \<Rightarrow> Inl ValueError | Some t \<Rightarrow> Inr t)"

definition sample_strftime :: "datetime \<Rightarrow> string" where
  "sample_strftime t = (case map_of (map prod.swap sample_times) t of None \<Rightarrow> [] | Some s \<Rightarrow> s)"

text \<open>A kline of the JSON file that opens at the time written in \<open>s\<close>.\<close>

definition json_kline :: "string \<Rightarrow> string kline" where
  "json_kline s =
     \<lparr>open_time = s, open_price = Some 5, high_price = Some 6, low_price = Some 4,
      close_price = Some 5, volume = Some 10, close_time = None,
      quote_asset_volume = Some 50, number_of_trades = Some 5,
      taker_buy_base_asset_volume = Some 4, taker_buy_quote_asset_volume = Some 20\<rparr>"

text \<open>A record as loaded from the JSON file, with \<open>field\<close> where \<^verbatim>\<open>open_time\<close> is read.\<close>

definition loaded_kline :: "json_field \<Rightarrow> json_field kline" where
  "loaded_kline field =
     \<lparr>open_time = field, open_price = Some 5, high_price = Some 6, low_price = Some 4,
      close_price = Some 5, volume = Some 10, close_time = None,
      quote_asset_volume = Some 50, number_of_trades = Some 5,
      taker_buy_base_asset_volume = Some 4, taker_buy_quote_asset_volume = Some 20\<rparr>"

text \<open>A frame of \<open>n\<close> complete rows, one per hour from midnight of 1 January 2024.\<close>

definition sample_frame :: "nat \<Rightarrow> datetime kline list" where
  "sample_frame n = map (\<lambda>i. sample_kline (1704067200 + int i * 3600) (100 + real i)) [0..<n]"

text \<open>The same frame with the close price of row 5 missing, and the same frame with the
  volume missing in every row.\<close>

definition gap_frame :: "nat \<Rightarrow> datetime kline list" where
  "gap_frame n =
     map (\<lambda>i. if i = 5
              then (sample_kline (1704067200 + int i * 3600) (100 + real i))\<lparr>close_price := None\<rparr>
              else sample_kline (1704067200 + int i * 3600) (100 + real i))
       [0..<n]"

definition no_volume_frame :: "nat \<Rightarrow> datetime kline list" where
  "no_volume_frame n =
     map (\<lambda>i. (sample_kline (1704067200 + int i * 3600) (100 + real i))\<lparr>volume := None\<rparr>) [0..<n]"

text \<open>An instance of the library parameter: it returns on every frame, and every cell it
  computes is missing.\<close>

definition sample_cells :: "nat \<Rightarrow> ta_columns" where
  "sample_cells i =
     \<lparr>ATR50 = None, RSI = None, MACD = None, MACD_Signal = None, MACD_Hist = None,
      Bollinger_High = None, Bollinger_Low = None, Bollinger_Middle = None,
      Stochastic_K = None, Stochastic_D = None, ADX = None, ADX_PDI = None, ADX_MDI = None,
      Williams_R = None, CMF = None, MFI = None, EMA12 = None, EMA26 = None\<rparr>"

definition sample_ta :: ta_library where
  "sample_ta seg = Inr sample_cells"

section \<open>Properties of the segmentation\<close>

lemma segment_loop_concat:
  "concat (segment_loop previous rows segments current_segment)
     = concat segments @ current_segment @ rows"
  by (induction rows arbitrary: previous segments current_segment) auto

lemma segment_loop_nonempty:
  "[] \<notin> set segments \<Longrightarrow> current_segment \<noteq> []
     \<Longrightarrow> [] \<notin> set (segment_loop previous rows segments current_segment)"
  by (induction rows arbitrary: previous segments current_segment) auto

lemma segment_loop_prefix:
  "\<exists>more. segment_loop previous rows segments current_segment = segments @ more \<and> more \<noteq> []"
proof (induction rows arbitrary: previous segments current_segment)
  case Nil
  show ?case by simp
next
  case (Cons row rest)
  show ?case
  proof (cases "open_time row - open_time previous = hour")
    case True
    with Cons.IH [of row segments "current_segment @ [row]"] show ?thesis by simp
  next
    case False
    from Cons.IH [of row "segments @ [current_segment]" "[row]"]
    obtain more where "segment_loop row rest (segments @ [current_segment]) [row]
        = (segments @ [current_segment]) @ more" and "more \<noteq> []"
      by blast
    with False show ?thesis by simp
  qed
qed

lemma nth_concat_offset:
  assumes "k < length segs" and "j < length (segs ! k)"
  shows "concat segs ! (length (concat (take k segs)) + j) = segs ! k ! j"
proof -
  have "segs = take k segs @ segs ! k # drop (Suc k) segs"
    using assms(1) by (simp add: id_take_nth_drop)
  then have "concat segs = concat (take k segs) @ segs ! k @ concat (drop (Suc k) segs)"
    by (metis concat.simps(2) concat_append)
  then show ?thesis
    using assms(2) by (simp add: nth_append)
qed

text \<open>
  Claim C1. For every frame with at least one row the segmentation returns a list of
  segments, none of them empty, whose concatenation in order is the frame itself, row for
  row. So every row of the frame lies in exactly one segment, at one position: row \<open>j\<close> of
  segment \<open>k\<close> is the row of the frame at the offset of segment \<open>k\<close> plus \<open>j\<close>, and the lengths
  of the segments add up to the length of the frame.
\<close>

theorem segments_partition_frame:
  assumes "df \<noteq> []"
  shows "\<exists>segments. split_into_segments df = Inr segments
           \<and> concat segments = df
           \<and> [] \<notin> set segments
           \<and> sum_list (map length segments) = length df
           \<and> (\<forall>k j. k < length segments \<and> j < length (segments ! k)
                 \<longrightarrow> segments ! k ! j = df ! (length (concat (take k segments)) + j))"
proof -
  from assms obtain first rest where df: "df = first # rest"
    by (cases df) auto
  define segments where "segments = segment_loop first rest [] [first]"
  have split: "split_into_segments df = Inr segments"
    by (simp add: split_into_segments_def df segments_def)
  have cat: "concat segments = df"
    by (simp add: segments_def segment_loop_concat df)
  have ne: "[] \<notin> set segments"
    unfolding segments_def by (rule segment_loop_nonempty) auto
  have len: "sum_list (map length segments) = length df"
    using cat by (metis length_concat)
  have pos: "\<forall>k j. k < length segments \<and> j < length (segments ! k)
      \<longrightarrow> segments ! k ! j = df ! (length (concat (take k segments)) + j)"
    using nth_concat_offset [of _ segments] cat by metis
  from split cat ne len pos show ?thesis by blast
qed

theorem segments_partition_frame_witness:
  "[sample_kline 0 5, sample_kline 3600 6, sample_kline 10800 7] \<noteq> []
   \<and> split_into_segments [sample_kline 0 5, sample_kline 3600 6, sample_kline 10800 7]
       = Inr [[sample_kline 0 5, sample_kline 3600 6], [sample_kline 10800 7]]
   \<and> concat [[sample_kline 0 5, sample_kline 3600 6], [sample_kline 10800 7]]
       = [sample_kline 0 5, sample_kline 3600 6, sample_kline 10800 7]"
  using segments_partition_frame [of "[sample_kline 0 5, sample_kline 3600 6, sample_kline 10800 7]"]
  by (simp add: split_into_segments_def sample_kline_def hour_def)

text \<open>
  Claim C7. On a frame without rows the segmentation raises (Python's IndexError, from
  \<^verbatim>\<open>df.iloc[0]\<close>); on a frame of one row it returns one segment holding that row.
\<close>

theorem segments_of_empty_and_single:
  "split_into_segments [] = Inl IndexError \<and> split_into_segments [row] = Inr [[row]]"
  by (simp add: split_into_segments_def)

lemma hourly_run_snoc:
  "hourly_run current_segment \<Longrightarrow> current_segment \<noteq> []
     \<Longrightarrow> open_time row - open_time (last current_segment) = hour
     \<Longrightarrow> hourly_run (current_segment @ [row])"
  by (induction current_segment rule: hourly_run.induct) auto

lemma hourly_run_nth:
  "hourly_run seg \<Longrightarrow> Suc k < length seg
     \<Longrightarrow> open_time (seg ! Suc k) - open_time (seg ! k) = hour"
proof (induction seg arbitrary: k rule: hourly_run.induct)
  case (1 a b rest)
  then show ?case by (cases k) auto
qed auto

lemma segment_loop_hourly:
  "\<forall>s \<in> set segments. hourly_run s \<Longrightarrow> hourly_run current_segment
     \<Longrightarrow> current_segment \<noteq> [] \<Longrightarrow> last current_segment = previous
     \<Longrightarrow> \<forall>s \<in> set (segment_loop previous rows segments current_segment). hourly_run s"
proof (induction rows arbitrary: previous segments current_segment)
  case Nil
  then show ?case by simp
next
  case (Cons row rest)
  show ?case
  proof (cases "open_time row - open_time previous = hour")
    case True
    have "hourly_run (current_segment @ [row])"
      using Cons.prems True by (simp add: hourly_run_snoc)
    with Cons.IH [of segments "current_segment @ [row]" row] Cons.prems(1) True
    show ?thesis by simp
  next
    case False
    with Cons.IH [of "segments @ [current_segment]" "[row]" row] Cons.prems
    show ?thesis by simp
  qed
qed

lemma segment_loop_break:
  "Suc i < length (previous # rows)
     \<Longrightarrow> open_time ((previous # rows) ! Suc i) - open_time ((previous # rows) ! i) \<noteq> hour
     \<Longrightarrow> \<exists>k. length segments \<le> k
           \<and> Suc k < length (segment_loop previous rows segments current_segment)
           \<and> concat (take (Suc k) (segment_loop previous rows segments current_segment))
               = concat segments @ current_segment @ take i rows"
proof (induction rows arbitrary: previous segments current_segment i)
  case Nil
  then show ?case by simp
next
  case (Cons row rest)
  show ?case
  proof (cases i)
    case 0
    with Cons.prems have brk: "open_time row - open_time previous \<noteq> hour" by simp
    obtain more where more: "segment_loop row rest (segments @ [current_segment]) [row]
        = (segments @ [current_segment]) @ more" "more \<noteq> []"
      using segment_loop_prefix by blast
    have "Suc (length segments) < length (segment_loop previous (row # rest) segments current_segment)"
      using brk more by (cases more) auto
    moreover have "concat (take (Suc (length segments))
        (segment_loop previous (row # rest) segments current_segment))
          = concat segments @ current_segment"
      using brk more by simp
    ultimately show ?thesis using 0 by auto
  next
    case (Suc i')
    with Cons.prems have idx: "Suc i' < length (row # rest)"
      and brk: "open_time ((row # rest) ! Suc i') - open_time ((row # rest) ! i') \<noteq> hour"
      by simp_all
    show ?thesis
    proof (cases "open_time row - open_time previous = hour")
      case True
      from Cons.IH [OF idx brk, of segments "current_segment @ [row]"] True Suc
      show ?thesis by auto
    next
      case False
      from Cons.IH [OF idx brk, of "segments @ [current_segment]" "[row]"]
      obtain k where k: "length (segments @ [current_segment]) \<le> k"
          "Suc k < length (segment_loop row rest (segments @ [current_segment]) [row])"
          "concat (take (Suc k) (segment_loop row rest (segments @ [current_segment]) [row]))
             = concat (segments @ [current_segment]) @ [row] @ take i' rest"
        by blast
      have "length segments \<le> k" using k(1) by simp
      with k(2,3) False Suc show ?thesis
        by (intro exI [of _ k]) simp

    qed
  qed
qed


lemma last_concat_take_Suc:
  assumes "k < length segs" and "segs ! k \<noteq> []"
  shows "last (concat (take (Suc k) segs)) = last (segs ! k)"
  using assms by (simp add: take_Suc_conv_app_nth)

lemma hd_concat_drop:
  assumes "k < length segs" and "segs ! k \<noteq> []"
  shows "hd (concat (drop k segs)) = hd (segs ! k)"
  using assms by (simp add: Cons_nth_drop_Suc [symmetric])

text \<open>
  Claim C9. In every segment that the segmentation returns, each row opens exactly one
  hour after the row before it. Where two neighbouring rows of the frame have the same
  \<^verbatim>\<open>open_time\<close>, one segment ends with the first of them and the next segment starts
  with the second: the segments before the cut are the rows up to the first, the segments
  after it are the rows from the second on. No row is dropped.
\<close>

theorem segments_hourly_and_split_duplicates:
  assumes "split_into_segments df = Inr segments"
  shows "(\<forall>seg \<in> set segments. \<forall>k. Suc k < length seg
            \<longrightarrow> open_time (seg ! Suc k) - open_time (seg ! k) = hour)
       \<and> (\<forall>i. Suc i < length df \<and> open_time (df ! Suc i) = open_time (df ! i)
            \<longrightarrow> (\<exists>k. Suc k < length segments
                  \<and> concat (take (Suc k) segments) = take (Suc i) df
                  \<and> concat (drop (Suc k) segments) = drop (Suc i) df
                  \<and> last (segments ! k) = df ! i
                  \<and> hd (segments ! Suc k) = df ! Suc i))
       \<and> concat segments = df"
proof -
  from assms obtain first rest where df: "df = first # rest"
    and segments: "segments = segment_loop first rest [] [first]"
    by (auto simp: split_into_segments_def split: list.splits)
  have cat: "concat segments = df"
    by (simp add: segments segment_loop_concat df)
  have ne: "[] \<notin> set segments"
    unfolding segments by (rule segment_loop_nonempty) auto
  have runs: "\<forall>seg \<in> set segments. hourly_run seg"
    unfolding segments by (rule segment_loop_hourly) auto
  have hourly: "\<forall>seg \<in> set segments. \<forall>k. Suc k < length seg
      \<longrightarrow> open_time (seg ! Suc k) - open_time (seg ! k) = hour"
    using runs hourly_run_nth by blast
  have dup: "\<exists>k. Suc k < length segments
        \<and> concat (take (Suc k) segments) = take (Suc i) df
        \<and> concat (drop (Suc k) segments) = drop (Suc i) df
        \<and> last (segments ! k) = df ! i
        \<and> hd (segments ! Suc k) = df ! Suc i"
    if i: "Suc i < length df" and same: "open_time (df ! Suc i) = open_time (df ! i)" for i
  proof -
    have "open_time ((first # rest) ! Suc i) - open_time ((first # rest) ! i) \<noteq> hour"
      using same by (simp add: df hour_def)
    from segment_loop_break [OF i [unfolded df] this, of "[]" "[first]"]
    obtain k where k: "Suc k < length segments"
        and front: "concat (take (Suc k) segments) = take (Suc i) df"
      by (auto simp: segments df)
    have "concat (take (Suc k) segments) @ concat (drop (Suc k) segments)
        = take (Suc i) df @ drop (Suc i) df"
      using cat by (metis append_take_drop_id concat_append)
    with front have rear: "concat (drop (Suc k) segments) = drop (Suc i) df"
      by (simp only: same_append_eq)
    have nek: "segments ! k \<noteq> []" "segments ! Suc k \<noteq> []"
      using ne k by (metis Suc_lessD nth_mem)+
    have "last (segments ! k) = last (take (Suc i) df)"
      using last_concat_take_Suc [of k segments] k nek front by simp
    also have "\<dots> = df ! i"
      using i by (simp add: take_Suc_conv_app_nth)
    finally have l: "last (segments ! k) = df ! i" .
    have "hd (segments ! Suc k) = hd (drop (Suc i) df)"
      using hd_concat_drop [of "Suc k" segments] k nek rear by simp
    also have "\<dots> = df ! Suc i"
      using i by (simp add: hd_drop_conv_nth)
    finally have h: "hd (segments ! Suc k) = df ! Suc i" .
    from k front rear l h show ?thesis by blast
  qed
  from hourly dup cat show ?thesis by blast
qed

theorem segments_hourly_and_split_duplicates_witness:
  "split_into_segments [sample_kline 0 5, sample_kline 3600 6, sample_kline 3600 7]
       = Inr [[sample_kline 0 5, sample_kline 3600 6], [sample_kline 3600 7]]
   \<and> open_time ([sample_kline 0 5, sample_kline 3600 6] ! Suc 0)
         - open_time ([sample_kline 0 5, sample_kline 3600 6] ! 0) = hour
   \<and> open_time ([sample_kline 0 5, sample_kline 3600 6, sample_kline 3600 7] ! Suc 1)
       = open_time ([sample_kline 0 5, sample_kline 3600 6, sample_kline 3600 7] ! 1)
   \<and> last ([[sample_kline 0 5, sample_kline 3600 6], [sample_kline 3600 7]] ! 0) = sample_kline 3600 6
   \<and> hd ([[sample_kline 0 5, sample_kline 3600 6], [sample_kline 3600 7]] ! Suc 0) = sample_kline 3600 7"
  using segments_hourly_and_split_duplicates
    [of "[sample_kline 0 5, sample_kline 3600 6, sample_kline 3600 7]"
        "[[sample_kline 0 5, sample_kline 3600 6], [sample_kline 3600 7]]"]
  by (simp add: split_into_segments_def sample_kline_def hour_def)

lemma hourly_run_iff:
  "hourly_run seg
     \<longleftrightarrow> (\<forall>k. Suc k < length seg \<longrightarrow> open_time (seg ! Suc k) - open_time (seg ! k) = hour)"
proof (induction seg rule: hourly_run.induct)
  case (1 a b rest)
  have "(\<forall>k. Suc k < length (a # b # rest)
          \<longrightarrow> open_time ((a # b # rest) ! Suc k) - open_time ((a # b # rest) ! k) = hour)
      \<longleftrightarrow> open_time b - open_time a = hour
          \<and> (\<forall>k. Suc k < length (b # rest)
                \<longrightarrow> open_time ((b # rest) ! Suc k) - open_time ((b # rest) ! k) = hour)"
    (is "?L \<longleftrightarrow> ?R")
  proof
    assume l: ?L
    from l [rule_format, of 0] have "open_time b - open_time a = hour" by simp
    moreover have "open_time ((b # rest) ! Suc k) - open_time ((b # rest) ! k) = hour"
      if "Suc k < length (b # rest)" for k
      using l [rule_format, of "Suc k"] that by simp
    ultimately show ?R by blast
  next
    assume r: ?R
    show ?L
    proof (intro allI impI)
      fix k assume "Suc k < length (a # b # rest)"
      then show "open_time ((a # b # rest) ! Suc k) - open_time ((a # b # rest) ! k) = hour"
        using r by (cases k) auto
    qed
  qed
  with 1 show ?case by simp
qed auto

lemma hourly_run_offset:
  "hourly_run seg \<Longrightarrow> i < length seg \<Longrightarrow> open_time (seg ! i) = open_time (seg ! 0) + int i * hour"
proof (induction i)
  case 0
  show ?case by simp
next
  case (Suc i)
  from Suc.prems have "open_time (seg ! Suc i) - open_time (seg ! i) = hour"
    by (simp add: hourly_run_nth)
  with Suc show ?case by (simp add: algebra_simps)
qed

lemma segment_loop_hourly_frame:
  "hourly_run (previous # rows)
     \<Longrightarrow> segment_loop previous rows segments current_segment
         = segments @ [current_segment @ rows]"
  by (induction rows arbitrary: previous current_segment) simp_all

lemma split_hourly_frame:
  "hourly_run df \<Longrightarrow> df \<noteq> [] \<Longrightarrow> split_into_segments df = Inr [df]"
  by (cases df) (simp_all add: split_into_segments_def segment_loop_hourly_frame)

lemma sample_frame_length: "length (sample_frame n) = n"
  by (simp add: sample_frame_def)

lemma sample_frame_nth:
  "i < n \<Longrightarrow> sample_frame n ! i = sample_kline (1704067200 + int i * 3600) (100 + real i)"
  by (simp add: sample_frame_def)

lemma sample_frame_hourly: "hourly_run (sample_frame n)"
  by (simp add: hourly_run_iff sample_frame_length sample_frame_nth sample_kline_def hour_def)

lemma sample_frame_complete: "\<not> isnull_any (sample_frame n)"
  by (simp add: isnull_any_def sample_frame_def sample_kline_def list_ex_iff)

section \<open>Properties of the scan for duplicate and missing hours\<close>

lemma scan_loop_step:
  "scan_loop strftime previous (actual_time # rest) duplicates missing =
     (if actual_time = previous + hour then scan_loop strftime actual_time rest duplicates missing
      else if actual_time = previous
      then scan_loop strftime actual_time rest (duplicates @ [actual_time]) missing
      else scan_loop strftime actual_time rest duplicates
             (missing @ map (\<lambda>j. strftime (previous + hour * j))
                          [1..(actual_time - previous) div hour - 1]))"
proof -
  have shift: "map (\<lambda>j. strftime (previous + hour + hour * (j - 1))) [1..n]
      = map (\<lambda>j. strftime (previous + hour * j)) [1..n]" for n
    by (simp add: algebra_simps)
  have "(actual_time - (previous + hour)) div hour = (actual_time - previous) div hour - 1"
    by (simp add: hour_def)
  with shift show ?thesis
    by (simp add: Let_def hour_def)
qed

lemma scan_loop_append:
  "scan_loop strftime previous (xs @ ys) duplicates missing =
     (case scan_loop strftime previous xs duplicates missing of
        (duplicates', missing') \<Rightarrow> scan_loop strftime (last (previous # xs)) ys duplicates' missing')"
proof (induction xs arbitrary: previous duplicates missing)
  case Nil
  show ?case by simp
next
  case (Cons x xs)
  show ?case
    by (simp only: append_Cons scan_loop_step Cons.IH last_ConsR list.distinct last.simps
        split: if_splits) simp
qed


lemma scan_loop_hourly:
  "hourly_times (previous # rest)
     \<Longrightarrow> scan_loop strftime previous rest duplicates missing = (duplicates, missing)"
  by (induction rest arbitrary: previous) (simp_all add: scan_loop_step del: scan_loop.simps(2))

lemma hourly_times_iff:
  "hourly_times p \<longleftrightarrow> (\<forall>i. Suc i < length p \<longrightarrow> p ! Suc i = p ! i + hour)"
proof (induction p rule: hourly_times.induct)
  case (1 a b rest)
  have "(\<forall>i. Suc i < length (a # b # rest) \<longrightarrow> (a # b # rest) ! Suc i = (a # b # rest) ! i + hour)
      \<longleftrightarrow> b = a + hour \<and> (\<forall>i. Suc i < length (b # rest) \<longrightarrow> (b # rest) ! Suc i = (b # rest) ! i + hour)"
    (is "?L \<longleftrightarrow> ?R")
  proof
    assume l: ?L
    from l [rule_format, of 0] have "b = a + hour" by simp
    moreover have "(b # rest) ! Suc i = (b # rest) ! i + hour" if "Suc i < length (b # rest)" for i
      using l [rule_format, of "Suc i"] that by simp
    ultimately show ?R by blast
  next
    assume r: ?R
    show ?L
    proof (intro allI impI)
      fix i assume "Suc i < length (a # b # rest)"
      then show "(a # b # rest) ! Suc i = (a # b # rest) ! i + hour"
        using r by (cases i) auto
    qed
  qed
  with 1 show ?case by simp
qed auto

lemma hourly_times_nth:
  "hourly_times p \<Longrightarrow> Suc i < length p \<Longrightarrow> p ! Suc i = p ! i + hour"
  by (simp add: hourly_times_iff)

lemma hourly_times_drop: "hourly_times p \<Longrightarrow> hourly_times (drop n p)"
  by (simp add: hourly_times_iff add.commute add.left_commute)

lemma hourly_times_take: "hourly_times p \<Longrightarrow> hourly_times (take n p)"
  by (simp add: hourly_times_iff)

lemma scan_times_hourly:
  "hourly_times p \<Longrightarrow> scan_times strftime p = ([], [])"
  by (cases p) (simp_all add: scan_times_def scan_loop_hourly)

lemma scan_times_one_duplicate:
  assumes p: "hourly_times p" and i: "i < length p"
  shows "scan_times strftime (take (Suc i) p @ drop i p) = ([p ! i], [])"
proof -
  from i obtain first xs where front: "take (Suc i) p = first # xs"
    by (cases p) auto
  have last: "last (first # xs) = p ! i"
    using i front by (metis take_Suc_conv_app_nth snoc_eq_iff_butlast)
  have dr: "drop i p = p ! i # drop (Suc i) p"
    using i by (simp add: Cons_nth_drop_Suc)
  have h1: "hourly_times (first # xs)"
    using hourly_times_take [OF p, of "Suc i"] front by simp
  have h2: "hourly_times (p ! i # drop (Suc i) p)"
    using hourly_times_drop [OF p, of i] dr by simp
  have "scan_times strftime (take (Suc i) p @ drop i p)
      = scan_loop strftime first (xs @ drop i p) [] []"
    by (simp add: scan_times_def front)
  also have "\<dots> = scan_loop strftime (p ! i) (p ! i # drop (Suc i) p) [] []"
    by (simp only: scan_loop_append scan_loop_hourly [OF h1] last dr prod.case)
  also have "\<dots> = scan_loop strftime (p ! i) (drop (Suc i) p) [p ! i] []"
    by (simp add: scan_loop_step hour_def)
  also have "\<dots> = ([p ! i], [])"
    by (rule scan_loop_hourly [OF h2])
  finally show ?thesis .
qed

lemma scan_times_one_missing:
  assumes p: "hourly_times p" and i: "0 < i" "Suc i < length p"
  shows "scan_times strftime (take i p @ drop (Suc i) p) = ([], [strftime (p ! i)])"
proof -
  from i obtain j where j: "i = Suc j" by (cases i) auto
  from i obtain first xs where front: "take i p = first # xs"
    by (cases p) (auto simp: j)
  have last: "last (first # xs) = p ! j"
    using i front j by (metis Suc_lessD take_Suc_conv_app_nth snoc_eq_iff_butlast)
  have dr: "drop (Suc i) p = p ! Suc i # drop (Suc (Suc i)) p"
    using i by (simp add: Cons_nth_drop_Suc)
  have h1: "hourly_times (first # xs)"
    using hourly_times_take [OF p, of i] front by simp
  have h2: "hourly_times (p ! Suc i # drop (Suc (Suc i)) p)"
    using hourly_times_drop [OF p, of "Suc i"] dr by simp
  have pi: "p ! i = p ! j + hour" and pi': "p ! Suc i = p ! j + 2 * hour"
    using hourly_times_nth [OF p, of j] hourly_times_nth [OF p, of i] i j by simp_all
  have "scan_times strftime (take i p @ drop (Suc i) p)
      = scan_loop strftime first (xs @ drop (Suc i) p) [] []"
    by (simp add: scan_times_def front)
  also have "\<dots> = scan_loop strftime (p ! j) (p ! Suc i # drop (Suc (Suc i)) p) [] []"
    by (simp only: scan_loop_append scan_loop_hourly [OF h1] last dr prod.case)
  also have "\<dots> = scan_loop strftime (p ! Suc i) (drop (Suc (Suc i)) p) [] [strftime (p ! i)]"
    by (simp add: scan_loop_step pi pi' hour_def)
  also have "\<dots> = ([], [strftime (p ! i)])"
    by (rule scan_loop_hourly [OF h2])
  finally show ?thesis .
qed






lemma validate_klines_hourly:
  assumes "klines \<noteq> []" and "parse_times strptime klines = Inr p" and "hourly_times p"
  shows "validate_klines strptime strftime klines = Inr (True, All_hourly)"
  using assms by (simp add: validate_klines_def scan_times_hourly)

lemma validate_klines_one_duplicate:
  assumes "parse_times strptime klines = Inr (take (Suc i) p @ drop i p)"
    and "hourly_times p" and "i < length p"
  shows "validate_klines strptime strftime klines
           = Inr (False, Errors [Duplicates_found [strftime (p ! i)]])"
proof -
  have "klines \<noteq> []"
    using assms(1,3) by (cases klines) auto
  with assms show ?thesis
    by (simp add: validate_klines_def scan_times_one_duplicate)
qed

lemma validate_klines_one_missing:
  assumes "parse_times strptime klines = Inr (take i p @ drop (Suc i) p)"
    and "hourly_times p" and "0 < i" and "Suc i < length p"
  shows "validate_klines strptime strftime klines
           = Inr (False, Errors [Missing_found 1 [strftime (p ! i)] False])"
proof -
  have "klines \<noteq> []"
    using assms(1,3,4) by (cases klines) auto
  with assms show ?thesis
    by (simp add: validate_klines_def scan_times_one_missing)
qed

lemma readable_iff:
  "readable strptime k \<longleftrightarrow> (\<exists>s t. open_time k = Str s \<and> strptime s = Inr t)"
  by (auto simp: readable_def split: json_field.splits sum.splits)

lemma scan_loop_raising_in_range:
  assumes "\<forall>i. Suc i < length (previous # rest) \<longrightarrow> (previous # rest) ! i + hour \<le> datetime_max"
  shows "scan_loop_raising strftime previous rest duplicates missing
           = Inr (scan_loop strftime previous rest duplicates missing)"
  using assms
proof (induction rest arbitrary: previous duplicates missing)
  case Nil
  show ?case by simp
next
  case (Cons actual_time rest)
  from Cons.prems [rule_format, of 0] have here: "\<not> datetime_max < previous + hour"
    by simp
  have "\<forall>i. Suc i < length (actual_time # rest)
      \<longrightarrow> (actual_time # rest) ! i + hour \<le> datetime_max"
    using Cons.prems by (metis Suc_less_eq length_Cons nth_Cons_Suc)
  from Cons.IH [OF this]
  have ih: "scan_loop_raising strftime actual_time rest d m
      = Inr (scan_loop strftime actual_time rest d m)" for d m .
  have "scan_loop_raising strftime previous (actual_time # rest) duplicates missing
      = (let expected_time = previous + hour in
         if actual_time = previous
         then Inr (scan_loop strftime actual_time rest (duplicates @ [actual_time]) missing)
         else if actual_time \<noteq> expected_time
         then (let delta = actual_time - expected_time;
                   missing_hours = delta div hour
               in Inr (scan_loop strftime actual_time rest duplicates
                    (missing @ map (\<lambda>j. strftime (expected_time + hour * (j - 1)))
                       [1..missing_hours])))
         else Inr (scan_loop strftime actual_time rest duplicates missing))"
    using here by (simp only: scan_loop_raising.simps ih if_False)
  also have "\<dots> = Inr (scan_loop strftime previous (actual_time # rest) duplicates missing)"
    by (simp only: scan_loop.simps Let_def if_distrib [of Inr])
  finally show ?case .
qed

lemma scan_loop_raising_overflow:
  assumes "Suc i < length (previous # rest)" and "datetime_max < (previous # rest) ! i + hour"
  shows "scan_loop_raising strftime previous rest duplicates missing = Inl OverflowError"
  using assms
proof (induction rest arbitrary: previous duplicates missing i)
  case Nil
  then show ?case by simp
next
  case (Cons actual_time rest)
  show ?case
  proof (cases "datetime_max < previous + hour")
    case True
    then show ?thesis by simp
  next
    case False
    with Cons.prems obtain j where j: "i = Suc j" by (cases i) auto
    with Cons.prems have "Suc j < length (actual_time # rest)"
        "datetime_max < (actual_time # rest) ! j + hour"
      by simp_all
    from Cons.IH [OF this]
    have ih: "scan_loop_raising strftime actual_time rest d m = Inl OverflowError" for d m .
    show ?thesis
      by (simp only: scan_loop_raising.simps ih Let_def if_cancel)
  qed
qed

lemma scan_times_raising_cases:
  "scan_times_raising strftime time_list
     = (if \<exists>i. Suc i < length time_list \<and> datetime_max < time_list ! i + hour
        then Inl OverflowError
        else Inr (scan_times strftime time_list))"
proof (cases time_list)
  case Nil
  then show ?thesis by (simp add: scan_times_raising_def scan_times_def)
next
  case (Cons first rest)
  show ?thesis
  proof (cases "\<exists>i. Suc i < length time_list \<and> datetime_max < time_list ! i + hour")
    case True
    then obtain i where "Suc i < length (first # rest)" "datetime_max < (first # rest) ! i + hour"
      using Cons by auto
    from scan_loop_raising_overflow [OF this] True Cons show ?thesis
      by (simp add: scan_times_raising_def)
  next
    case False
    have "(first # rest) ! i + hour \<le> datetime_max" if "Suc i < length (first # rest)" for i
    proof (rule ccontr)
      assume "\<not> (first # rest) ! i + hour \<le> datetime_max"
      then have "datetime_max < time_list ! i + hour" by (simp add: Cons)
      with that False Cons show False by blast
    qed
    then have "\<forall>i. Suc i < length (first # rest) \<longrightarrow> (first # rest) ! i + hour \<le> datetime_max"
      by blast
    from scan_loop_raising_in_range [OF this] False Cons show ?thesis
      by (simp add: scan_times_raising_def scan_times_def)
  qed
qed

lemma read_times_Inr:
  "read_times strptime klines = Inr time_list
     \<longleftrightarrow> length time_list = length klines
         \<and> (\<forall>i < length klines. \<exists>s. open_time (klines ! i) = Str s \<and> strptime s = Inr (time_list ! i))"
proof (induction klines arbitrary: time_list)
  case Nil
  show ?case by auto
next
  case (Cons k klines)
  show ?case
  proof
    assume "read_times strptime (k # klines) = Inr time_list"
    then obtain s t parsed where k: "open_time k = Str s" "strptime s = Inr t"
      and rest: "read_times strptime klines = Inr parsed" and tl: "time_list = t # parsed"
      by (auto split: json_field.splits sum.splits)
    from rest Cons.IH [of parsed] have "length parsed = length klines"
        "\<forall>i < length klines. \<exists>s. open_time (klines ! i) = Str s \<and> strptime s = Inr (parsed ! i)"
      by simp_all
    with k tl show "length time_list = length (k # klines)
        \<and> (\<forall>i < length (k # klines). \<exists>s. open_time ((k # klines) ! i) = Str s
              \<and> strptime s = Inr (time_list ! i))"
      by (auto simp: nth_Cons split: nat.splits)
  next
    assume r: "length time_list = length (k # klines)
        \<and> (\<forall>i < length (k # klines). \<exists>s. open_time ((k # klines) ! i) = Str s
              \<and> strptime s = Inr (time_list ! i))"
    then obtain t parsed where tl: "time_list = t # parsed"
      by (cases time_list) auto
    from r [THEN conjunct2, rule_format, of 0] tl
    obtain s where k: "open_time k = Str s" "strptime s = Inr t"
      by auto
    have "\<exists>s. open_time (klines ! i) = Str s \<and> strptime s = Inr (parsed ! i)"
      if "i < length klines" for i
      using r [THEN conjunct2, rule_format, of "Suc i"] that tl by simp
    with r tl have "read_times strptime klines = Inr parsed"
      using Cons.IH [of parsed] by simp
    with k tl show "read_times strptime (k # klines) = Inr time_list"
      by simp
  qed
qed

lemma read_times_Inl:
  "read_times strptime klines = Inl e
     \<longleftrightarrow> (\<exists>j < length klines. (\<forall>i < j. readable strptime (klines ! i))
           \<and> (open_time (klines ! j) = Absent \<and> e = KeyError
              \<or> open_time (klines ! j) = Not_str \<and> e = TypeError
              \<or> (\<exists>s. open_time (klines ! j) = Str s \<and> strptime s = Inl e)))"
  (is "?L klines \<longleftrightarrow> ?R klines")
proof (induction klines)
  case Nil
  show ?case by simp
next
  case (Cons k klines)
  show ?case
  proof (cases "readable strptime k")
    case True
    then obtain s t where k: "open_time k = Str s" "strptime s = Inr t"
      by (auto simp: readable_iff)
    have "?L (k # klines) \<longleftrightarrow> ?L klines"
      using k by (auto split: sum.splits)
    moreover have "?R (k # klines) \<longleftrightarrow> ?R klines"
    proof
      assume "?R (k # klines)"
      then obtain j where j: "j < length (k # klines)"
          "\<forall>i < j. readable strptime ((k # klines) ! i)"
          "open_time ((k # klines) ! j) = Absent \<and> e = KeyError
            \<or> open_time ((k # klines) ! j) = Not_str \<and> e = TypeError
            \<or> (\<exists>s. open_time ((k # klines) ! j) = Str s \<and> strptime s = Inl e)"
        by blast
      from j(3) k have "j \<noteq> 0" by (cases j) auto
      then obtain j' where j': "j = Suc j'" by (cases j) auto
      have "\<forall>i < j'. readable strptime (klines ! i)"
        using j(2) j' by (metis Suc_less_eq nth_Cons_Suc)
      with j(1,3) j' show "?R klines"
        by (intro exI [of _ j']) simp
    next
      assume "?R klines"
      then obtain j where j: "j < length klines" "\<forall>i < j. readable strptime (klines ! i)"
          "open_time (klines ! j) = Absent \<and> e = KeyError
            \<or> open_time (klines ! j) = Not_str \<and> e = TypeError
            \<or> (\<exists>s. open_time (klines ! j) = Str s \<and> strptime s = Inl e)"
        by blast
      have "\<forall>i < Suc j. readable strptime ((k # klines) ! i)"
        using j(2) True by (auto simp: nth_Cons split: nat.splits)
      with j(1,3) show "?R (k # klines)"
        by (intro exI [of _ "Suc j"]) simp
    qed
    ultimately show ?thesis using Cons.IH by simp
  next
    case False
    have l: "?L (k # klines) \<longleftrightarrow> (open_time k = Absent \<and> e = KeyError
        \<or> open_time k = Not_str \<and> e = TypeError
        \<or> (\<exists>s. open_time k = Str s \<and> strptime s = Inl e))"
      using False by (auto simp: readable_iff split: json_field.splits sum.splits)
    have "?R (k # klines) \<longleftrightarrow> (open_time k = Absent \<and> e = KeyError
        \<or> open_time k = Not_str \<and> e = TypeError
        \<or> (\<exists>s. open_time k = Str s \<and> strptime s = Inl e))"
    proof
      assume "?R (k # klines)"
      then obtain j where j: "j < length (k # klines)"
          "\<forall>i < j. readable strptime ((k # klines) ! i)"
          "open_time ((k # klines) ! j) = Absent \<and> e = KeyError
            \<or> open_time ((k # klines) ! j) = Not_str \<and> e = TypeError
            \<or> (\<exists>s. open_time ((k # klines) ! j) = Str s \<and> strptime s = Inl e)"
        by blast
      have "j = 0"
      proof (rule ccontr)
        assume "j \<noteq> 0"
        then have "0 < j" by simp
        with j(2) have "readable strptime ((k # klines) ! 0)" by blast
        with False show False by simp
      qed
      with j(3) show "open_time k = Absent \<and> e = KeyError
          \<or> open_time k = Not_str \<and> e = TypeError
          \<or> (\<exists>s. open_time k = Str s \<and> strptime s = Inl e)"
        by simp
    next
      assume "open_time k = Absent \<and> e = KeyError
          \<or> open_time k = Not_str \<and> e = TypeError
          \<or> (\<exists>s. open_time k = Str s \<and> strptime s = Inl e)"
      then show "?R (k # klines)"
        by (intro exI [of _ 0]) simp
    qed
    with l show ?thesis by simp
  qed
qed


text \<open>
  Claim C5, as amended. The validator raises neither on an empty list nor on a timestamp
  string that the parser rejects with ValueError: both give the invalid result with the
  message of the case. When every record is read and every timestamp but the last is at
  least one hour before the largest datetime, it raises nothing: it returns the lines that
  report the duplicates and the missing hours of the scan, or valid when there are none.
  It raises in these cases and no others: at the first record that is not read, KeyError
  when the record has no \<^verbatim>\<open>open_time\<close>, TypeError when the value is not a string, and the
  parser's exception when it is not ValueError; and OverflowError when every record is read
  and a timestamp other than the last is less than one hour before the largest datetime.
\<close>

theorem validate_klines_raising_cases:
  "validate_klines_raising strptime strftime [] = Inr (False, Klines_empty)
   \<and> (\<forall>j s. j < length klines \<and> (\<forall>i < j. readable strptime (klines ! i))
          \<and> open_time (klines ! j) = Str s \<and> strptime s = Inl ValueError
        \<longrightarrow> validate_klines_raising strptime strftime klines = Inr (False, Time_format_error))
   \<and> (\<forall>time_list duplicates missing.
          klines \<noteq> [] \<and> read_times strptime klines = Inr time_list
          \<and> (\<forall>i. Suc i < length time_list \<longrightarrow> time_list ! i + hour \<le> datetime_max)
          \<and> scan_times strftime time_list = (duplicates, missing)
        \<longrightarrow> validate_klines_raising strptime strftime klines
              = (if duplicates \<noteq> [] \<or> missing \<noteq> []
                 then Inr (False, Errors
                        ((if duplicates \<noteq> [] then [Duplicates_found (map strftime duplicates)] else [])
                         @ (if missing \<noteq> []
                            then [Missing_found (length missing) (take 10 missing) (20 < length missing)]
                            else [])))
                 else Inr (True, All_hourly)))
   \<and> (\<forall>e. validate_klines_raising strptime strftime klines = Inl e
        \<longleftrightarrow> (\<exists>j < length klines. (\<forall>i < j. readable strptime (klines ! i))
               \<and> (open_time (klines ! j) = Absent \<and> e = KeyError
                  \<or> open_time (klines ! j) = Not_str \<and> e = TypeError
                  \<or> (\<exists>s. open_time (klines ! j) = Str s \<and> strptime s = Inl e \<and> e \<noteq> ValueError)))
            \<or> (e = OverflowError
                \<and> (\<exists>time_list i. read_times strptime klines = Inr time_list
                      \<and> Suc i < length time_list \<and> datetime_max < time_list ! i + hour)))"
proof -
  have empty: "validate_klines_raising strptime strftime [] = Inr (False, Klines_empty)"
    by (simp add: validate_klines_raising_def)
  have format: "validate_klines_raising strptime strftime klines = Inr (False, Time_format_error)"
    if "j < length klines" and "\<forall>i < j. readable strptime (klines ! i)"
      and "open_time (klines ! j) = Str s" and "strptime s = Inl ValueError" for j s
  proof -
    from that have "read_times strptime klines = Inl ValueError"
      by (subst read_times_Inl, intro exI [of _ j]) simp
    moreover from that(1) have "klines \<noteq> []" by auto
    ultimately show ?thesis by (simp add: validate_klines_raising_def)
  qed
  have in_range: "validate_klines_raising strptime strftime klines
      = (if duplicates \<noteq> [] \<or> missing \<noteq> []
         then Inr (False, Errors
                ((if duplicates \<noteq> [] then [Duplicates_found (map strftime duplicates)] else [])
                 @ (if missing \<noteq> []
                    then [Missing_found (length missing) (take 10 missing) (20 < length missing)]
                    else [])))
         else Inr (True, All_hourly))"
    if "klines \<noteq> []" and "read_times strptime klines = Inr time_list"
      and "\<forall>i. Suc i < length time_list \<longrightarrow> time_list ! i + hour \<le> datetime_max"
      and "scan_times strftime time_list = (duplicates, missing)" for time_list duplicates missing
  proof -
    from that(3) have "\<not> (\<exists>i. Suc i < length time_list \<and> datetime_max < time_list ! i + hour)"
      by (auto simp: not_less)
    then have "scan_times_raising strftime time_list = Inr (duplicates, missing)"
      using that(4) by (simp only: scan_times_raising_cases if_False)
    with that(1,2) show ?thesis
      by (simp add: validate_klines_raising_def)
  qed
  have raises: "validate_klines_raising strptime strftime klines = Inl e
      \<longleftrightarrow> (\<exists>j < length klines. (\<forall>i < j. readable strptime (klines ! i))
             \<and> (open_time (klines ! j) = Absent \<and> e = KeyError
                \<or> open_time (klines ! j) = Not_str \<and> e = TypeError
                \<or> (\<exists>s. open_time (klines ! j) = Str s \<and> strptime s = Inl e \<and> e \<noteq> ValueError)))
          \<or> (e = OverflowError
              \<and> (\<exists>time_list i. read_times strptime klines = Inr time_list
                    \<and> Suc i < length time_list \<and> datetime_max < time_list ! i + hour))"
    (is "?L \<longleftrightarrow> ?A \<or> ?B") for e
  proof
    assume l: ?L
    then have ne: "klines \<noteq> []"
      by (auto simp: validate_klines_raising_def)
    show "?A \<or> ?B"
    proof (cases "read_times strptime klines")
      case (Inl e')
      with l ne have e: "e' = e" "e \<noteq> ValueError"
        by (auto simp: validate_klines_raising_def split: if_splits)
      from Inl e(1) have "read_times strptime klines = Inl e" by simp
      then obtain j where "j < length klines" "\<forall>i < j. readable strptime (klines ! i)"
          "open_time (klines ! j) = Absent \<and> e = KeyError
            \<or> open_time (klines ! j) = Not_str \<and> e = TypeError
            \<or> (\<exists>s. open_time (klines ! j) = Str s \<and> strptime s = Inl e)"
        unfolding read_times_Inl by blast
      with e(2) have ?A by blast
      then show ?thesis ..
    next
      case (Inr time_list)
      with l ne have "scan_times_raising strftime time_list = Inl e"
        by (auto simp: validate_klines_raising_def split: sum.splits prod.splits if_splits)
      then have "e = OverflowError
          \<and> (\<exists>i. Suc i < length time_list \<and> datetime_max < time_list ! i + hour)"
        by (auto simp: scan_times_raising_cases split: if_splits)
      with Inr have ?B by blast
      then show ?thesis ..
    qed
  next
    assume "?A \<or> ?B"
    then show ?L
    proof
      assume ?A
      then obtain j where j: "j < length klines" "\<forall>i < j. readable strptime (klines ! i)"
          "open_time (klines ! j) = Absent \<and> e = KeyError
            \<or> open_time (klines ! j) = Not_str \<and> e = TypeError
            \<or> (\<exists>s. open_time (klines ! j) = Str s \<and> strptime s = Inl e \<and> e \<noteq> ValueError)"
        by blast
      then have "read_times strptime klines = Inl e"
        by (subst read_times_Inl, intro exI [of _ j]) auto
      moreover from j(3) have "e \<noteq> ValueError" by auto
      moreover from j(1) have "klines \<noteq> []" by auto
      ultimately show ?L by (simp add: validate_klines_raising_def)
    next
      assume ?B
      then obtain time_list i where b: "e = OverflowError"
          "read_times strptime klines = Inr time_list"
          "Suc i < length time_list" "datetime_max < time_list ! i + hour"
        by blast
      from b(2) have "length time_list = length klines"
        by (simp add: read_times_Inr)
      with b(3) have "klines \<noteq> []" by auto
      moreover from b(3,4) have "scan_times_raising strftime time_list = Inl OverflowError"
        by (auto simp: scan_times_raising_cases)
      ultimately show ?L using b(1,2) by (simp add: validate_klines_raising_def)
    qed
  qed
  from empty format in_range raises show ?thesis by blast
qed


theorem validate_klines_raising_cases_witness:
  "validate_klines_raising sample_strptime sample_strftime
     (map loaded_kline [Str ''2024-01-01 00:00:00'', Str ''2024-01-01 00:00:00'',
                        Str ''2024-01-01 03:00:00''])
     = Inr (False, Errors [Duplicates_found [''2024-01-01 00:00:00''],
                           Missing_found 2 [''2024-01-01 01:00:00'', ''2024-01-01 02:00:00''] False])
   \<and> validate_klines_raising sample_strptime sample_strftime
        (map loaded_kline [Str ''2024-01-01 00:00:00'', Str ''01/01/2024 1am'', Not_str])
       = Inr (False, Time_format_error)
   \<and> validate_klines_raising sample_strptime sample_strftime
        (map loaded_kline [Str ''2024-01-01 00:00:00'', Not_str]) = Inl TypeError
   \<and> validate_klines_raising sample_strptime sample_strftime
        (map loaded_kline [Str ''2024-01-01 00:00:00'', Absent]) = Inl KeyError
   \<and> validate_klines_raising sample_strptime sample_strftime
        (map loaded_kline [Str ''9999-12-31 23:30:00'', Str ''9999-12-31 23:30:00''])
       = Inl OverflowError"
proof -
  let ?gaps = "map loaded_kline [Str ''2024-01-01 00:00:00'', Str ''2024-01-01 00:00:00'',
      Str ''2024-01-01 03:00:00'']"
  have read: "read_times sample_strptime ?gaps = Inr [1704067200, 1704067200, 1704078000]"
    by (simp add: loaded_kline_def sample_strptime_def sample_times_def)
  have range: "\<forall>i. Suc i < length [1704067200, 1704067200, 1704078000 :: int]
      \<longrightarrow> [1704067200, 1704067200, 1704078000 :: int] ! i + hour \<le> datetime_max"
    by (simp add: hour_def datetime_max_def less_Suc_eq nth_Cons')
  have scan: "scan_times sample_strftime [1704067200, 1704067200, 1704078000]
      = ([1704067200], [''2024-01-01 01:00:00'', ''2024-01-01 02:00:00''])"
    by (simp add: scan_times_def hour_def upto.simps sample_strftime_def sample_times_def)
  have gaps: "validate_klines_raising sample_strptime sample_strftime ?gaps
      = Inr (False, Errors [Duplicates_found [''2024-01-01 00:00:00''],
                            Missing_found 2 [''2024-01-01 01:00:00'', ''2024-01-01 02:00:00''] False])"
    using validate_klines_raising_cases [of sample_strptime sample_strftime ?gaps,
        THEN conjunct2, THEN conjunct2, THEN conjunct1, rule_format,
        of "[1704067200, 1704067200, 1704078000]" "[1704067200]"
          "[''2024-01-01 01:00:00'', ''2024-01-01 02:00:00'']"]
      read range scan
    by (simp add: sample_strftime_def sample_times_def)
  have others: "validate_klines_raising sample_strptime sample_strftime
        (map loaded_kline [Str ''2024-01-01 00:00:00'', Str ''01/01/2024 1am'', Not_str])
       = Inr (False, Time_format_error)"
      "validate_klines_raising sample_strptime sample_strftime
        (map loaded_kline [Str ''2024-01-01 00:00:00'', Not_str]) = Inl TypeError"
      "validate_klines_raising sample_strptime sample_strftime
        (map loaded_kline [Str ''2024-01-01 00:00:00'', Absent]) = Inl KeyError"
      "validate_klines_raising sample_strptime sample_strftime
        (map loaded_kline [Str ''9999-12-31 23:30:00'', Str ''9999-12-31 23:30:00''])
       = Inl OverflowError"
    by (simp_all add: validate_klines_raising_def loaded_kline_def sample_strptime_def
        sample_times_def scan_times_raising_def hour_def datetime_max_def)
  from gaps others show ?thesis by blast
qed

text \<open>
  Claim C5 as stated fails: on an empty list, and on a list with a timestamp that the
  parser rejects, the validator returns a result and raises nothing.
\<close>

theorem validate_klines_raises_counterexample:
  "validate_klines_raising sample_strptime sample_strftime [] = Inr (False, Klines_empty)
   \<and> sample_strptime ''01/01/2024 1am'' = Inl ValueError
   \<and> validate_klines_raising sample_strptime sample_strftime [loaded_kline (Str ''01/01/2024 1am'')]
       = Inr (False, Time_format_error)"
  by (simp add: validate_klines_raising_def sample_strptime_def sample_times_def loaded_kline_def)

lemma read_times_strings:
  "map open_time klines = map (\<lambda>k. Str (open_time k)) texts
     \<Longrightarrow> read_times strptime klines = parse_times strptime texts"
proof (induction klines arbitrary: texts)
  case Nil
  then show ?case by simp
next
  case (Cons k klines)
  then obtain t texts' where texts: "texts = t # texts'" by (cases texts) auto
  with Cons.prems have "open_time k = Str (open_time t)"
      "map open_time klines = map (\<lambda>k. Str (open_time k)) texts'"
    by simp_all
  with Cons.IH [of texts'] texts show ?case by (simp split: sum.splits)
qed

lemma validate_klines_raising_agrees:
  assumes "map open_time klines = map (\<lambda>k. Str (open_time k)) texts"
    and "parse_times strptime texts = Inr time_list"
    and "\<forall>i. Suc i < length time_list \<longrightarrow> time_list ! i + hour \<le> datetime_max"
  shows "validate_klines_raising strptime strftime klines = validate_klines strptime strftime texts"
proof -
  have read: "read_times strptime klines = Inr time_list"
    using read_times_strings [OF assms(1)] assms(2) by simp
  from assms(3) have "\<not> (\<exists>i. Suc i < length time_list \<and> datetime_max < time_list ! i + hour)"
    by (auto simp: not_less)
  then have scan: "scan_times_raising strftime time_list = Inr (scan_times strftime time_list)"
    by (simp only: scan_times_raising_cases if_False)
  have "klines = [] \<longleftrightarrow> texts = []"
    using assms(1) by (metis map_is_Nil_conv)
  with read scan assms(2) show ?thesis
    by (cases "scan_times strftime time_list")
      (simp add: validate_klines_raising_def validate_klines_def)
qed

text \<open>
  Claim C4 at two klines ninety minutes apart. The second timestamp is neither the first
  nor the first plus one hour, and the hour in between, 01:00:00, has no kline; the scan
  records nothing and the validator returns valid.
\<close>

theorem ninety_minute_step_passes:
  "parse_times sample_strptime (map json_kline [''2024-01-01 00:00:00'', ''2024-01-01 01:30:00''])
     = Inr [1704067200, 1704072600]
   \<and> scan_times sample_strftime [1704067200, 1704072600] = ([], [])
   \<and> validate_klines sample_strptime sample_strftime
        (map json_kline [''2024-01-01 00:00:00'', ''2024-01-01 01:30:00'']) = Inr (True, All_hourly)"
  by (simp add: validate_klines_def sample_strptime_def sample_strftime_def sample_times_def
      json_kline_def scan_times_def hour_def)

theorem ninety_minute_step_passes_witness:
  "validate_klines sample_strptime sample_strftime
     (map json_kline [''2024-01-01 00:00:00'', ''2024-01-01 01:30:00''])
     \<noteq> Inr (False, Errors [Missing_found 1 [''2024-01-01 01:00:00''] False])"
  using ninety_minute_step_passes by simp

section \<open>Properties of the rolling mean and of the average true range\<close>

lemma shift1_length: "length (shift1 column) = length column"
  by (cases column) (simp_all add: shift1_def)

lemma shift1_nth:
  assumes "i < length column"
  shows "shift1 column ! i = (if i = 0 then None else column ! (i - 1))"
proof (cases i)
  case 0
  with assms show ?thesis by (cases column) (simp_all add: shift1_def)
next
  case (Suc j)
  with assms have "j < length (butlast column)" by simp
  then have "butlast column ! j = column ! j" by (rule nth_butlast)
  with Suc assms show ?thesis by (cases column) (simp_all add: shift1_def)
qed

lemma rolling_mean_length: "length (rolling_mean window column) = length column"
  by (simp add: rolling_mean_def)

lemma rolling_mean_warm_up:
  "i < length column \<Longrightarrow> Suc i < window \<Longrightarrow> rolling_mean window column ! i = None"
  by (simp add: rolling_mean_def)

lemma rolling_mean_present:
  assumes "i < length values" and "window \<le> Suc i"
  shows "rolling_mean window (map Some values) ! i
           = Some (sum_list (take window (drop (Suc i - window) values)) / real window)"
proof -
  have "map the (take window (drop (Suc i - window) (map Some values)))
      = take window (drop (Suc i - window) values)"
    by (simp add: take_map drop_map comp_def)
  moreover have "None \<notin> set (take window (drop (Suc i - window) (map Some values)))"
    by (auto simp: take_map drop_map)
  ultimately show ?thesis
    using assms by (simp add: rolling_mean_def Let_def)
qed

lemma TR_spec:
  assumes present: "\<forall>k \<in> set df. high_price k \<noteq> None \<and> low_price k \<noteq> None \<and> close_price k \<noteq> None"
    and i: "i < length df"
  shows "TR df ! i = Some (spec_true_range (map (\<lambda>k. the (high_price k)) df)
           (map (\<lambda>k. the (low_price k)) df) (map (\<lambda>k. the (close_price k)) df) i)"
proof -
  from present i obtain h l where h: "high_price (df ! i) = Some h" and l: "low_price (df ! i) = Some l"
    by (metis nth_mem option.exhaust)
  show ?thesis
  proof (cases i)
    case 0
    with i h l show ?thesis
      by (simp add: TR_def tr1_def tr2_def tr3_def previous_close_def shift1_nth shift1_length
          max_skipna_def spec_true_range_def)
  next
    case (Suc j)
    with present i obtain c where c: "close_price (df ! j) = Some c"
      by (metis Suc_lessD nth_mem option.exhaust)
    from Suc i h l c show ?thesis
      by (simp add: TR_def tr1_def tr2_def tr3_def previous_close_def shift1_nth shift1_length
          max_skipna_def spec_true_range_def max.commute max.left_commute)
  qed
qed

lemma TR_length: "length (TR df) = length df"
  by (simp add: TR_def)

text \<open>
  The average true range of \<^verbatim>\<open>calculate_indicators\<close>, which runs on the frame it is given
  and not on the segments of \<^verbatim>\<open>process_crypto_data\<close> (their \<^verbatim>\<open>ATR_50\<close> is a column of the
  library \<^verbatim>\<open>ta\<close>). On a frame whose high, low and close cells are all present, the column \<^verbatim>\<open>TR\<close> is the true range of the specification at every row (high
  minus low alone at the first row), and the column \<^verbatim>\<open>ATR50\<close> is missing on the first 49
  rows and from row 49 on is the plain mean of the true ranges of the 50 rows ending at
  the row.
\<close>

lemma ATR50_is_rolling_mean_of_true_range:
  assumes "\<forall>k \<in> set df. high_price k \<noteq> None \<and> low_price k \<noteq> None \<and> close_price k \<noteq> None"
    and "i < length df"
  shows "TR df ! i = Some (spec_true_range (map (\<lambda>k. the (high_price k)) df)
           (map (\<lambda>k. the (low_price k)) df) (map (\<lambda>k. the (close_price k)) df) i)
       \<and> ATR50_column df ! i =
           (if i < 49 then None
            else Some (spec_ATR 50 (map (\<lambda>k. the (high_price k)) df)
                   (map (\<lambda>k. the (low_price k)) df) (map (\<lambda>k. the (close_price k)) df) i))"
proof -
  define spec where "spec = spec_true_range (map (\<lambda>k. the (high_price k)) df)
      (map (\<lambda>k. the (low_price k)) df) (map (\<lambda>k. the (close_price k)) df)"
  have cell: "TR df ! j = Some (spec j)" if "j < length df" for j
    unfolding spec_def using assms(1) that by (rule TR_spec)
  have column: "TR df = map Some (map spec [0..<length df])"
    by (rule nth_equalityI) (simp_all add: TR_length cell)
  have "ATR50_column df ! i = Some (spec_ATR 50 (map (\<lambda>k. the (high_price k)) df)
      (map (\<lambda>k. the (low_price k)) df) (map (\<lambda>k. the (close_price k)) df) i)"
    if "49 \<le> i"
  proof -
    have window: "take 50 (drop (Suc i - 50) (map spec [0..<length df])) = map spec [Suc i - 50..<Suc i]"
      using assms(2) that by (simp add: take_map drop_map)
    have "ATR50_column df ! i = rolling_mean 50 (map Some (map spec [0..<length df])) ! i"
      by (simp only: ATR50_column_def column)
    also have "\<dots> = Some (sum_list (take 50 (drop (Suc i - 50) (map spec [0..<length df]))) / real 50)"
      using assms(2) that by (intro rolling_mean_present) simp_all
    also have "\<dots> = Some (sum_list (map spec [Suc i - 50..<Suc i]) / real 50)"
      by (simp only: window)
    finally show ?thesis
      by (simp only: spec_ATR_def spec_def)
  qed
  moreover have "ATR50_column df ! i = None" if "i < 49"
    using assms(2) that by (simp add: ATR50_column_def rolling_mean_warm_up TR_length)
  ultimately show ?thesis
    using cell [OF assms(2)] by (simp add: spec_def)
qed

lemma sample_frame_present:
  "\<forall>k \<in> set (sample_frame n). high_price k \<noteq> None \<and> low_price k \<noteq> None \<and> close_price k \<noteq> None"
  by (auto simp: sample_frame_def sample_kline_def)

lemma ATR50_at_sample_frame:
  "TR (sample_frame 50) ! 49 = Some 2 \<and> ATR50_column (sample_frame 50) ! 49 = Some 2
   \<and> ATR50_column (sample_frame 50) ! 48 = None"
proof -
  have tr: "spec_true_range (map (\<lambda>k. the (high_price k)) (sample_frame 50))
      (map (\<lambda>k. the (low_price k)) (sample_frame 50))
      (map (\<lambda>k. the (close_price k)) (sample_frame 50)) j = 2" if "j < 50" for j
    using that by (simp add: spec_true_range_def sample_frame_nth sample_frame_length sample_kline_def)
  have "map (spec_true_range (map (\<lambda>k. the (high_price k)) (sample_frame 50))
      (map (\<lambda>k. the (low_price k)) (sample_frame 50))
      (map (\<lambda>k. the (close_price k)) (sample_frame 50))) [0..<50] = map (\<lambda>j. 2) [0..<50]"
    by (rule map_cong) (simp_all add: tr)
  then have "sum_list (map (spec_true_range (map (\<lambda>k. the (high_price k)) (sample_frame 50))
      (map (\<lambda>k. the (low_price k)) (sample_frame 50))
      (map (\<lambda>k. the (close_price k)) (sample_frame 50))) [0..<50]) = sum_list (map (\<lambda>j. 2) [0..<50])"
    by (rule arg_cong)
  then have atr: "spec_ATR 50 (map (\<lambda>k. the (high_price k)) (sample_frame 50))
      (map (\<lambda>k. the (low_price k)) (sample_frame 50))
      (map (\<lambda>k. the (close_price k)) (sample_frame 50)) 49 = 2"
    by (simp add: spec_ATR_def sum_list_triv)
  from ATR50_is_rolling_mean_of_true_range [OF sample_frame_present, of 49 50]
    ATR50_is_rolling_mean_of_true_range [OF sample_frame_present, of 48 50]
  show ?thesis
    by (simp add: sample_frame_length tr atr)
qed

section \<open>Properties of filling, trimming and output\<close>

lemma ffill_from_length: "length (ffill_from seen cells) = length cells"
  by (induction seen cells rule: ffill_from.induct) simp_all

lemma ffill_length: "length (ffill column) = length column"
  by (simp add: ffill_def ffill_from_length)

lemma bfill_length: "length (bfill cells) = length cells"
  by (induction cells rule: bfill.induct) (auto split: list.splits)

lemma ffill_frame_length: "length (ffill_frame seg) = length seg"
  by (simp add: ffill_frame_def)

lemma bfill_frame_length: "length (bfill_frame seg) = length seg"
  by (simp add: bfill_frame_def)

lemma fillna_length: "length (fillna seg) = length seg"
  by (simp add: fillna_def ffill_frame_length bfill_frame_length)

lemma fillna_open_time: "i < length seg \<Longrightarrow> open_time (fillna seg ! i) = open_time (seg ! i)"
  by (simp add: fillna_def ffill_frame_def bfill_frame_def)

lemma fillna_complete: "\<not> isnull_any seg \<Longrightarrow> fillna seg = seg"
  by (simp add: fillna_def)

lemma add_indicators_length: "length (add_indicators cells seg) = length seg"
  by (simp add: add_indicators_def)

lemma add_indicators_bar: "i < length seg \<Longrightarrow> bar (add_indicators cells seg ! i) = seg ! i"
  by (simp add: add_indicators_def)

lemma processed_data_cases:
  "(\<exists>e. ta (fillna segment) = Inl e \<and> processed_data ta strftime segment = Inl e)
   \<or> (\<exists>cells. ta (fillna segment) = Inr cells
         \<and> processed_data ta strftime segment
             = Inr (map (strftime_row strftime) (drop 99 (add_indicators cells (fillna segment)))))"
  by (cases "ta (fillna segment)") (simp_all add: processed_data_def)

lemma processed_data_length:
  "processed_data ta strftime segment = Inr rows \<Longrightarrow> length rows = length segment - 99"
  by (auto simp: processed_data_def add_indicators_length fillna_length split: sum.splits)

lemma processed_data_nth:
  "processed_data ta strftime segment = Inr rows \<Longrightarrow> i < length segment - 99
     \<Longrightarrow> \<exists>cells. ta (fillna segment) = Inr cells
           \<and> rows ! i = strftime_row strftime (add_indicators cells (fillna segment) ! (99 + i))"
  by (auto simp: processed_data_def add_indicators_length fillna_length split: sum.splits)

lemma processed_data_bar:
  assumes "processed_data ta strftime segment = Inr rows" and "i < length segment - 99"
  shows "open_time (bar (rows ! i)) = strftime (open_time (segment ! (99 + i)))"
    and "close_time (bar (rows ! i)) = map_option strftime (close_time (fillna segment ! (99 + i)))"
    and "volume (bar (rows ! i)) = volume (fillna segment ! (99 + i))"
    and "close_price (bar (rows ! i)) = close_price (fillna segment ! (99 + i))"
  using processed_data_nth [OF assms] assms(2)
  by (auto simp: strftime_row_def add_indicators_bar fillna_length fillna_open_time)

lemma process_segment_short:
  "length segment < 99
     \<Longrightarrow> process_segment ta strftime idx segment st
         = Inr (st\<lparr>warnings := warnings st @
                  [Discarded_insufficient_length (idx + 1) (length segment)]\<rparr>)"
  by (simp add: process_segment_def)

lemma process_segment_raises:
  "99 \<le> length segment \<Longrightarrow> ta (fillna segment) = Inl e
     \<Longrightarrow> process_segment ta strftime idx segment st
         = Inl (e, st\<lparr>warnings := (if isnull_any segment
                                     then warnings st @ [Contains_missing_values (idx + 1)]
                                     else warnings st)\<rparr>)"
  by (simp add: process_segment_def processed_data_def)

lemma process_segment_99:
  assumes "length segment = 99" and "ta (fillna segment) = Inr cells"
  shows "process_segment ta strftime idx segment st
         = Inl (IndexError,
             st\<lparr>warnings := (if isnull_any segment
                                then warnings st @ [Contains_missing_values (idx + 1)]
                                else warnings st),
                segment_files := segment_files st @ [(idx + 1, [])]\<rparr>)"
proof -
  obtain rows where rows: "processed_data ta strftime segment = Inr rows"
    using assms(2) by (simp add: processed_data_def)
  from processed_data_length [OF this] assms(1) have "rows = []" by simp
  with rows assms(1) show ?thesis
    by (simp add: process_segment_def Let_def)
qed

lemma process_segment_long:
  assumes "100 \<le> length segment" and "processed_data ta strftime segment = Inr rows"
  shows "process_segment ta strftime idx segment st
         = Inr (st\<lparr>warnings := (if isnull_any segment
                                then warnings st @ [Contains_missing_values (idx + 1)]
                                else warnings st),
                segment_files := segment_files st @ [(idx + 1, rows)],
                combined_processed_segments := combined_processed_segments st @
                  [\<lparr>segment_id = idx + 1,
                    start_time = strftime (open_time (segment ! 99)),
                    end_time = map_option strftime (close_time (last (fillna segment))),
                    records = rows\<rparr>]\<rparr>)"
proof -
  have len: "length rows = length segment - 99"
    using assms(2) by (rule processed_data_length)
  with assms(1) obtain first_row more where rows: "rows = first_row # more"
    by (cases rows) auto
  have "first_row = rows ! 0" by (simp add: rows)
  then have first: "open_time (bar first_row) = strftime (open_time (segment ! 99))"
    using processed_data_bar(1) [OF assms(2), of 0] assms(1) by simp
  have "rows \<noteq> []" by (simp add: rows)
  then have "last rows = rows ! (length rows - 1)"
    by (rule last_conv_nth)
  then have "last rows = rows ! (length segment - 100)"
    using len by simp
  then have "close_time (bar (last rows))
      = map_option strftime (close_time (fillna segment ! (length segment - 1)))"
    using processed_data_bar(2) [OF assms(2), of "length segment - 100"] assms(1) by simp
  moreover have "fillna segment \<noteq> []"
    using assms(1) fillna_length [of segment] by auto
  ultimately have final: "close_time (bar (last rows))
      = map_option strftime (close_time (last (fillna segment)))"
    by (simp add: last_conv_nth fillna_length)
  show ?thesis
    using assms first final
    by (simp add: process_segment_def Let_def) (simp add: rows)
qed

lemma process_segments_entries:
  assumes "process_segments ta strftime idx segments st = Inr st'"
    and "e \<in> set (combined_processed_segments st')"
  shows "e \<in> set (combined_processed_segments st)
       \<or> (\<exists>k < length segments. 100 \<le> length (segments ! k)
            \<and> processed_data ta strftime (segments ! k) = Inr (records e)
            \<and> segment_id e = idx + k + 1
            \<and> start_time e = strftime (open_time (segments ! k ! 99))
            \<and> end_time e = map_option strftime (close_time (last (fillna (segments ! k)))))"
  using assms
proof (induction segments arbitrary: idx st)
  case Nil
  then show ?case by simp
next
  case (Cons segment rest)
  consider "length segment < 99" | "length segment = 99" | "100 \<le> length segment"
    by linarith
  then show ?case
  proof cases
    case 1
    with Cons.prems(1) have "process_segments ta strftime (Suc idx) rest
        (st\<lparr>warnings := warnings st @
          [Discarded_insufficient_length (idx + 1) (length segment)]\<rparr>) = Inr st'"
      by (simp add: process_segment_short)
    from Cons.IH [OF this Cons.prems(2)] show ?thesis
      by auto
  next
    case 2
    show ?thesis
    proof (cases "ta (fillna segment)")
      case (Inl e')
      with 2 Cons.prems(1) show ?thesis
        by (simp add: process_segment_raises)
    next
      case (Inr cells)
      with 2 Cons.prems(1) show ?thesis
        by (simp add: process_segment_99)
    qed
  next
    case 3
    show ?thesis
    proof (cases "processed_data ta strftime segment")
      case (Inl e')
      then have "ta (fillna segment) = Inl e'"
        by (auto simp: processed_data_def split: sum.splits)
      with 3 Cons.prems(1) show ?thesis
        by (simp add: process_segment_raises)
    next
      case (Inr rows)
      define entry where "entry = \<lparr>segment_id = idx + 1,
          start_time = strftime (open_time (segment ! 99)),
          end_time = map_option strftime (close_time (last (fillna segment))),
          records = rows\<rparr>"
      define st2 where "st2 = st\<lparr>warnings := (if isnull_any segment
                                  then warnings st @ [Contains_missing_values (idx + 1)]
                                  else warnings st),
                  segment_files := segment_files st @ [(idx + 1, rows)],
                  combined_processed_segments := combined_processed_segments st @ [entry]\<rparr>"
      from 3 Inr Cons.prems(1) have "process_segments ta strftime (Suc idx) rest st2 = Inr st'"
        by (simp add: process_segment_long st2_def entry_def)
      from Cons.IH [OF this Cons.prems(2)]
      consider "e \<in> set (combined_processed_segments st2)"
        | k where "k < length rest" "100 \<le> length (rest ! k)"
            "processed_data ta strftime (rest ! k) = Inr (records e)"
            "segment_id e = Suc idx + k + 1"
            "start_time e = strftime (open_time (rest ! k ! 99))"
            "end_time e = map_option strftime (close_time (last (fillna (rest ! k))))"
        by blast
      then show ?thesis
      proof cases
        case 1
        then have "e \<in> set (combined_processed_segments st) \<or> e = entry"
          by (auto simp: st2_def)
        with 3 Inr show ?thesis
          by (auto simp: entry_def intro: exI [of _ 0])
      next
        case 2
        then show ?thesis
          by (intro disjI2 exI [of _ "Suc k"]) simp
      qed
    qed
  qed
qed

lemma ffill_from_present:
  "i < length cells \<Longrightarrow> cells ! i = Some v \<Longrightarrow> ffill_from seen cells ! i = Some v"
proof (induction seen cells arbitrary: i rule: ffill_from.induct)
  case (1 seen)
  then show ?case by simp
next
  case (2 seen cells)
  then show ?case by (cases i) auto
next
  case (3 seen w cells)
  then show ?case by (cases i) auto
qed

lemma bfill_present:
  "i < length cells \<Longrightarrow> cells ! i = Some v \<Longrightarrow> bfill cells ! i = Some v"
proof (induction cells arbitrary: i rule: bfill.induct)
  case 1
  then show ?case by simp
next
  case (2 w cells)
  then show ?case by (cases i) auto
next
  case (3 cells)
  from "3.prems" obtain j where j: "i = Suc j" by (cases i) auto
  with "3.IH" "3.prems" have "bfill cells ! j = Some v" by simp
  moreover have "length (bfill cells) = length cells" by (rule bfill_length)
  ultimately show ?case
    using j "3.prems" by (cases "bfill cells"; cases j) auto
qed

lemma fillna_close_time_present:
  assumes "i < length seg" and "close_time (seg ! i) = Some v"
  shows "close_time (fillna seg ! i) = Some v"
proof -
  have "ffill (map close_time seg) ! i = Some v"
    using assms by (simp add: ffill_def ffill_from_present)
  then have "bfill (map close_time (ffill_frame seg)) ! i = Some v"
    using assms by (intro bfill_present) (simp_all add: ffill_frame_def)
  with assms show ?thesis
    by (simp add: fillna_def bfill_frame_def ffill_frame_length)
qed

lemma process_hourly_frame_99:
  assumes "hourly_run df" and "length df = 99" and "ta (fillna df) = Inr cells"
  shows "process_crypto_data ta strftime df
         = Inl (IndexError,
             start_state\<lparr>warnings := (if isnull_any df then [Contains_missing_values 1] else []),
                         segment_files := [(1, [])]\<rparr>)"
proof -
  from assms(2) have "df \<noteq> []" by auto
  with assms show ?thesis
    by (simp add: process_crypto_data_def split_hourly_frame process_segment_99 start_state_def)
qed

lemma process_hourly_frame_long:
  assumes "hourly_run df" and "100 \<le> length df" and "processed_data ta strftime df = Inr rows"
  shows "process_crypto_data ta strftime df
         = Inr \<lparr>segment_files = [(1, rows)],
                combined_processed_segments =
                  [\<lparr>segment_id = 1,
                    start_time = strftime (open_time (df ! 99)),
                    end_time = map_option strftime (close_time (last (fillna df))),
                    records = rows\<rparr>],
                combined_file = Some
                  [\<lparr>segment_id = 1,
                    start_time = strftime (open_time (df ! 99)),
                    end_time = map_option strftime (close_time (last (fillna df))),
                    records = rows\<rparr>],
                warnings = (if isnull_any df then [Contains_missing_values 1] else [])\<rparr>"
proof -
  from assms(2) have "df \<noteq> []" by auto
  with assms show ?thesis
    by (simp add: process_crypto_data_def split_hourly_frame process_segment_long start_state_def)
qed

text \<open>
  Claim C2 at a frame of 99 contiguous hourly rows. The frame is one segment of 99 rows,
  fewer than the 100 below which the claim has a segment discarded with a warning. The
  guard of line 53 accepts it; dropping the first 99 rows leaves no row, the segment file
  is written without rows, and \<^verbatim>\<open>seg['open_time'].iloc[0]\<close> raises IndexError. The run
  ends there: nothing is discarded, no warning is logged, no combined file is written.
\<close>

theorem ninety_nine_rows_raise:
  "length (sample_frame 99) = 99
   \<and> split_into_segments (sample_frame 99) = Inr [sample_frame 99]
   \<and> process_crypto_data sample_ta sample_strftime (sample_frame 99)
       = Inl (IndexError,
           \<lparr>segment_files = [(1, [])], combined_processed_segments = [], combined_file = None,
            warnings = []\<rparr>)"
proof -
  have "sample_frame 99 \<noteq> []"
    using sample_frame_length [of 99] by auto
  moreover have "sample_ta (fillna (sample_frame 99)) = Inr sample_cells"
    by (simp add: sample_ta_def)
  ultimately show ?thesis
    by (simp add: sample_frame_length split_hourly_frame sample_frame_hourly
        process_hourly_frame_99 sample_frame_complete start_state_def)
qed

text \<open>
  Claim C10. Every entry of the combined output of a run that completes comes from a
  segment of at least 100 rows, the one its \<^verbatim>\<open>segment_id\<close> numbers. Its \<^verbatim>\<open>start_time\<close> is
  the formatted \<^verbatim>\<open>open_time\<close> of the segment's row at index 99, the first row left by the
  trimming, which opens 99 hours after the segment's first row. Its \<^verbatim>\<open>end_time\<close> is the
  formatted \<^verbatim>\<open>close_time\<close> of the last row of the filled segment, which is the
  \<^verbatim>\<open>close_time\<close> of the segment's last row whenever that cell is present.
\<close>

theorem artifact_times:
  assumes "process_crypto_data ta strftime df = Inr st"
    and "e \<in> set (combined_processed_segments st)"
  shows "\<exists>segments segment. split_into_segments df = Inr segments
           \<and> segment_id e - 1 < length segments \<and> segment = segments ! (segment_id e - 1)
           \<and> 100 \<le> length segment
           \<and> start_time e = strftime (open_time (segment ! 99))
           \<and> open_time (segment ! 99) = open_time (segment ! 0) + 99 * hour
           \<and> end_time e = map_option strftime (close_time (last (fillna segment)))
           \<and> (close_time (last segment) \<noteq> None
                \<longrightarrow> end_time e = map_option strftime (close_time (last segment)))
           \<and> processed_data ta strftime segment = Inr (records e)"
proof -
  from assms(1) obtain segments st0 where split: "split_into_segments df = Inr segments"
    and loop: "process_segments ta strftime 0 segments start_state = Inr st0"
    and st: "st = st0\<lparr>combined_file := Some (combined_processed_segments st0)\<rparr>"
    by (auto simp: process_crypto_data_def split: sum.splits)
  from assms(2) st have "e \<in> set (combined_processed_segments st0)" by simp
  from process_segments_entries [OF loop this]
  obtain k where k: "k < length segments" "100 \<le> length (segments ! k)"
    and rows: "processed_data ta strftime (segments ! k) = Inr (records e)"
    and id: "segment_id e = k + 1"
    and start: "start_time e = strftime (open_time (segments ! k ! 99))"
    and final0: "end_time e = map_option strftime (close_time (last (fillna (segments ! k))))"
    by (auto simp: start_state_def)
  define segment where "segment = segments ! k"
  from split obtain first rest where "segments = segment_loop first rest [] [first]"
    by (auto simp: split_into_segments_def split: list.splits)
  moreover have "\<forall>seg \<in> set (segment_loop first rest [] [first]). hourly_run seg"
    by (rule segment_loop_hourly) auto
  ultimately have "\<forall>seg \<in> set segments. hourly_run seg"
    by simp
  with k have run: "hourly_run segment"
    by (simp add: segment_def)
  from hourly_run_offset [OF run, of 99] k
  have offset: "open_time (segment ! 99) = open_time (segment ! 0) + 99 * hour"
    by (simp add: segment_def)
  have final: "end_time e = map_option strftime (close_time (last segment))"
    if "close_time (last segment) \<noteq> None"
  proof -
    from that obtain v where v: "close_time (last segment) = Some v" by auto
    have ne: "segment \<noteq> []" using k by (auto simp: segment_def)
    with v have "close_time (segment ! (length segment - 1)) = Some v"
      by (simp add: last_conv_nth)
    then have "close_time (fillna segment ! (length segment - 1)) = Some v"
      using ne by (intro fillna_close_time_present) simp_all
    moreover have "fillna segment \<noteq> []"
      using ne fillna_length [of segment] by auto
    ultimately have "close_time (last (fillna segment)) = Some v"
      by (simp add: last_conv_nth fillna_length)
    with v final0 show ?thesis by (simp add: segment_def)
  qed
  from split k rows id start final0 offset final show ?thesis
    by (auto simp: segment_def)
qed

theorem artifact_times_witness:
  "process_crypto_data sample_ta sample_strftime (sample_frame 100)
     = Inr \<lparr>segment_files =
              [(1, map (strftime_row sample_strftime)
                     (drop 99 (add_indicators sample_cells (sample_frame 100))))],
            combined_processed_segments =
              [\<lparr>segment_id = 1, start_time = ''2024-01-05 03:00:00'',
                end_time = Some ''2024-01-05 03:59:59'',
                records = map (strftime_row sample_strftime)
                            (drop 99 (add_indicators sample_cells (sample_frame 100)))\<rparr>],
            combined_file = Some
              [\<lparr>segment_id = 1, start_time = ''2024-01-05 03:00:00'',
                end_time = Some ''2024-01-05 03:59:59'',
                records = map (strftime_row sample_strftime)
                            (drop 99 (add_indicators sample_cells (sample_frame 100)))\<rparr>],
            warnings = []\<rparr>
   \<and> split_into_segments (sample_frame 100) = Inr [sample_frame 100]
   \<and> open_time (sample_frame 100 ! 0) = 1704067200
   \<and> open_time (sample_frame 100 ! 99) = 1704067200 + 99 * hour
   \<and> sample_strftime (open_time (sample_frame 100 ! 99)) = ''2024-01-05 03:00:00''
   \<and> map_option sample_strftime (close_time (last (sample_frame 100))) = Some ''2024-01-05 03:59:59''"
proof -
  define rows where "rows = map (strftime_row sample_strftime)
      (drop 99 (add_indicators sample_cells (sample_frame 100)))"
  define e where "e = \<lparr>segment_id = 1,
      start_time = sample_strftime (open_time (sample_frame 100 ! 99)),
      end_time = map_option sample_strftime (close_time (last (fillna (sample_frame 100)))),
      records = rows\<rparr>"
  define st where "st = \<lparr>segment_files = [(1, rows)],
      combined_processed_segments = [e], combined_file = Some [e], warnings = []\<rparr>"
  have data: "processed_data sample_ta sample_strftime (sample_frame 100) = Inr rows"
    by (simp add: processed_data_def sample_ta_def rows_def
        fillna_complete [OF sample_frame_complete])
  have run: "process_crypto_data sample_ta sample_strftime (sample_frame 100) = Inr st"
    using process_hourly_frame_long [OF sample_frame_hourly _ data]
    by (simp add: sample_frame_length sample_frame_complete st_def e_def)
  have member: "e \<in> set (combined_processed_segments st)"
    by (simp add: st_def)
  have split: "split_into_segments (sample_frame 100) = Inr [sample_frame 100]"
    using sample_frame_length [of 100] by (intro split_hourly_frame sample_frame_hourly) auto
  have last: "last (sample_frame 100) = sample_frame 100 ! 99"
    using sample_frame_length [of 100] by (subst last_conv_nth) auto
  have closes: "close_time (last (sample_frame 100)) \<noteq> None"
    by (simp add: last sample_frame_nth sample_kline_def)
  from artifact_times [OF run member] split closes
  have times: "start_time e = sample_strftime (open_time (sample_frame 100 ! 99))"
      "open_time (sample_frame 100 ! 99) = open_time (sample_frame 100 ! 0) + 99 * hour"
      "end_time e = map_option sample_strftime (close_time (last (sample_frame 100)))"
    by (auto simp: e_def)
  have first: "open_time (sample_frame 100 ! 0) = 1704067200"
    by (simp add: sample_frame_nth sample_kline_def)
  have start: "sample_strftime (open_time (sample_frame 100 ! 99)) = ''2024-01-05 03:00:00''"
    by (simp add: sample_frame_nth sample_kline_def sample_strftime_def sample_times_def)
  have final: "map_option sample_strftime (close_time (last (sample_frame 100)))
      = Some ''2024-01-05 03:59:59''"
    by (simp add: last sample_frame_nth sample_kline_def sample_strftime_def sample_times_def)
  have entry: "e = \<lparr>segment_id = 1, start_time = ''2024-01-05 03:00:00'',
      end_time = Some ''2024-01-05 03:59:59'', records = rows\<rparr>"
    using times(1,3) start final by (simp add: e_def)
  have "process_crypto_data sample_ta sample_strftime (sample_frame 100)
      = Inr \<lparr>segment_files = [(1, rows)],
            combined_processed_segments =
              [\<lparr>segment_id = 1, start_time = ''2024-01-05 03:00:00'',
                end_time = Some ''2024-01-05 03:59:59'', records = rows\<rparr>],
            combined_file = Some
              [\<lparr>segment_id = 1, start_time = ''2024-01-05 03:00:00'',
                end_time = Some ''2024-01-05 03:59:59'', records = rows\<rparr>],
            warnings = []\<rparr>"
    unfolding run st_def entry ..
  moreover have "open_time (sample_frame 100 ! 99) = 1704067200 + 99 * hour"
    using times(2) first by simp
  ultimately show ?thesis
    using split first start final unfolding rows_def by blast
qed

lemma nearest_earlier_0: "nearest_earlier (cell # cells) 0 = cell"
  by (cases cell) (simp_all add: nearest_earlier_def)

lemma nearest_earlier_Suc:
  "nearest_earlier (cell # cells) (Suc i)
     = (case nearest_earlier cells i of None \<Rightarrow> cell | Some v \<Rightarrow> Some v)"
proof -
  have present: "\<exists>v. last (x # xs) = Some v"
    if "x # xs = filter (\<lambda>cell. cell \<noteq> None) ys" for x :: "'a option" and xs ys
  proof -
    have "last (x # xs) \<in> set (filter (\<lambda>cell. cell \<noteq> None) ys)"
      unfolding that [symmetric] by (rule last_in_set) simp
    then show ?thesis by auto
  qed
  show ?thesis
  proof (cases "filter (\<lambda>cell. cell \<noteq> None) (take (Suc i) cells)")
    case Nil
    then show ?thesis
      by (cases cell) (simp_all add: nearest_earlier_def)
  next
    case (Cons x xs)
    from present [OF Cons [symmetric]] obtain v where "last (x # xs) = Some v" ..
    with Cons show ?thesis
      by (cases cell) (simp_all add: nearest_earlier_def)
  qed
qed

lemma ffill_from_nth:
  "i < length cells
     \<Longrightarrow> ffill_from seen cells ! i
         = (case nearest_earlier cells i of None \<Rightarrow> seen | Some v \<Rightarrow> Some v)"
proof (induction seen cells arbitrary: i rule: ffill_from.induct)
  case (1 seen)
  then show ?case by simp
next
  case (2 seen cells)
  then show ?case
    by (cases i) (simp_all add: nearest_earlier_0 nearest_earlier_Suc split: option.splits)
next
  case (3 seen v cells)
  then show ?case
    by (cases i) (simp_all add: nearest_earlier_0 nearest_earlier_Suc split: option.splits)
qed

lemma nearest_later_Nil: "nearest_later [] i = None"
  by (simp add: nearest_later_def)

lemma nearest_later_0:
  "nearest_later (cell # cells) 0 = (case cell of None \<Rightarrow> nearest_later cells 0 | Some v \<Rightarrow> Some v)"
  by (cases cell) (simp_all add: nearest_later_def)

lemma nearest_later_Suc: "nearest_later (cell # cells) (Suc i) = nearest_later cells i"
  by (simp add: nearest_later_def)

lemma bfill_nth: "i < length cells \<Longrightarrow> bfill cells ! i = nearest_later cells i"
proof (induction cells arbitrary: i rule: bfill.induct)
  case 1
  then show ?case by simp
next
  case (2 v cells)
  then show ?case
    by (cases i) (simp_all add: nearest_later_0 nearest_later_Suc)
next
  case (3 cells)
  show ?case
  proof (cases "bfill cells")
    case Nil
    then have "cells = []"
      using bfill_length [of cells] by simp
    with "3.prems" show ?thesis
      by (simp add: nearest_later_0 nearest_later_Nil)
  next
    case (Cons below filled)
    then have ne: "0 < length cells"
      using bfill_length [of cells] by auto
    show ?thesis
    proof (cases i)
      case 0
      with Cons "3.IH" [OF ne] show ?thesis
        by (simp add: nearest_later_0)
    next
      case (Suc j)
      with "3.prems" have "j < length cells" by simp
      from "3.IH" [OF this] Cons Suc show ?thesis
        by (simp add: nearest_later_Suc)
    qed
  qed
qed

lemma nearest_earlier_None:
  "i < length cells \<Longrightarrow> nearest_earlier cells i = None \<Longrightarrow> j \<le> i \<Longrightarrow> cells ! j = None"
proof (induction cells arbitrary: i j)
  case Nil
  then show ?case by simp
next
  case (Cons cell cells)
  show ?case
  proof (cases i)
    case 0
    with Cons.prems show ?thesis by (simp add: nearest_earlier_0)
  next
    case (Suc i')
    with Cons.prems have e: "nearest_earlier cells i' = None" and c: "cell = None"
      by (auto simp: nearest_earlier_Suc split: option.splits)
    show ?thesis
    proof (cases j)
      case 0
      with c show ?thesis by simp
    next
      case (Suc j')
      with Cons.IH [of i' j'] e Cons.prems \<open>i = Suc i'\<close> show ?thesis by simp
    qed
  qed
qed

lemma nearest_later_ffill_from:
  "nearest_later (ffill_from None cells) 0 = nearest_later cells 0"
  by (induction cells) (auto simp: nearest_later_0 nearest_later_Nil split: option.splits)

lemma nearest_later_skip:
  "i \<le> n \<Longrightarrow> n \<le> length cells \<Longrightarrow> \<forall>j < n. cells ! j = None
     \<Longrightarrow> nearest_later cells i = nearest_later (drop n cells) 0"
proof (induction cells arbitrary: i n)
  case Nil
  then show ?case by (simp add: nearest_later_Nil)
next
  case (Cons cell cells)
  show ?case
  proof (cases n)
    case 0
    with Cons.prems show ?thesis by simp
  next
    case (Suc n')
    with Cons.prems have c: "cell = None" and rest: "\<forall>j < n'. cells ! j = None"
      by auto
    show ?thesis
    proof (cases i)
      case 0
      with Cons.IH [of 0 n'] rest Cons.prems Suc c show ?thesis
        by (simp add: nearest_later_0)
    next
      case (Suc i')
      with Cons.IH [of i' n'] rest Cons.prems \<open>n = Suc n'\<close> show ?thesis
        by (simp add: nearest_later_Suc)
    qed
  qed
qed

lemma ffill_from_skip:
  "n \<le> length cells \<Longrightarrow> \<forall>j < n. cells ! j = None
     \<Longrightarrow> drop n (ffill_from None cells) = ffill_from None (drop n cells)
       \<and> (\<forall>j < n. ffill_from None cells ! j = None)"
proof (induction cells arbitrary: n)
  case Nil
  then show ?case by simp
next
  case (Cons cell cells)
  show ?case
  proof (cases n)
    case 0
    then show ?thesis by simp
  next
    case (Suc n')
    with Cons.prems have c: "cell = None" and rest: "\<forall>j < n'. cells ! j = None"
      and le: "n' \<le> length cells"
      by auto
    from Cons.IH [OF le rest] c Suc show ?thesis
      by (auto simp: less_Suc_eq_0_disj)
  qed
qed

lemma fill_is_spec_fill: "bfill (ffill column) = spec_fill column"
proof (rule nth_equalityI)
  show "length (bfill (ffill column)) = length (spec_fill column)"
    by (simp add: bfill_length ffill_length spec_fill_def)
next
  fix i assume "i < length (bfill (ffill column))"
  then have i: "i < length column"
    by (simp add: bfill_length ffill_length)
  show "bfill (ffill column) ! i = spec_fill column ! i"
  proof (cases "nearest_earlier column i")
    case (Some v)
    with i have "ffill column ! i = Some v"
      by (simp add: ffill_def ffill_from_nth)
    then have "bfill (ffill column) ! i = Some v"
      using i by (intro bfill_present) (simp_all add: ffill_length)
    with Some i show ?thesis
      by (simp add: spec_fill_def)
  next
    case None
    then have none: "\<forall>j < Suc i. column ! j = None"
      using nearest_earlier_None [OF i] by auto
    have le: "Suc i \<le> length column" using i by simp
    have filled: "\<forall>j < Suc i. ffill column ! j = None"
        "drop (Suc i) (ffill column) = ffill_from None (drop (Suc i) column)"
      using ffill_from_skip [OF le none] by (simp_all add: ffill_def)
    have "bfill (ffill column) ! i = nearest_later (ffill column) i"
      using i by (simp add: bfill_nth ffill_length)
    also have "\<dots> = nearest_later (drop (Suc i) (ffill column)) 0"
      using filled(1) le by (intro nearest_later_skip) (simp_all add: ffill_length)
    also have "\<dots> = nearest_later (drop (Suc i) column) 0"
      by (simp only: filled(2) nearest_later_ffill_from)
    also have "\<dots> = nearest_later column i"
      using none le by (intro nearest_later_skip [symmetric]) simp_all
    finally show ?thesis
      using None i by (simp add: spec_fill_def)
  qed
qed

lemma nearest_later_None:
  assumes "nearest_later cells i = None" and "i \<le> j" and "j < length cells"
  shows "cells ! j = None"
proof -
  have "filter (\<lambda>cell. cell \<noteq> None) (drop i cells) = []"
  proof (cases "filter (\<lambda>cell. cell \<noteq> None) (drop i cells)")
    case Nil
    then show ?thesis .
  next
    case (Cons cell more)
    then have "cell \<in> set (filter (\<lambda>cell. cell \<noteq> None) (drop i cells))" by simp
    then have "cell \<noteq> None" by simp
    with assms(1) Cons show ?thesis by (simp add: nearest_later_def)
  qed
  then have "\<forall>cell \<in> set (drop i cells). cell = None"
    by (simp add: filter_empty_conv)
  moreover have "cells ! j \<in> set (drop i cells)"
  proof -
    have "drop i cells ! (j - i) = cells ! j"
      using assms(2,3) by simp
    moreover have "j - i < length (drop i cells)"
      using assms(2,3) by simp
    ultimately show ?thesis by (metis nth_mem)
  qed
  ultimately show ?thesis by blast
qed

lemma spec_fill_gap:
  "None \<in> set (spec_fill column) \<longleftrightarrow> column \<noteq> [] \<and> (\<forall>cell \<in> set column. cell = None)"
proof
  assume "None \<in> set (spec_fill column)"
  then obtain i where i: "i < length column" and e: "nearest_earlier column i = None"
    and l: "nearest_later column i = None"
    by (auto simp: spec_fill_def split: option.splits)
  have "column ! j = None" if "j < length column" for j
  proof (cases "j \<le> i")
    case True
    with nearest_earlier_None [OF i e] show ?thesis by blast
  next
    case False
    with nearest_later_None [OF l _ that] show ?thesis by simp
  qed
  then have "\<forall>cell \<in> set column. cell = None"
    by (metis in_set_conv_nth)
  with i show "column \<noteq> [] \<and> (\<forall>cell \<in> set column. cell = None)"
    by auto
next
  assume all: "column \<noteq> [] \<and> (\<forall>cell \<in> set column. cell = None)"
  then obtain cell cells where column: "column = cell # cells" by (cases column) auto
  with all have "cell = None" and "filter (\<lambda>cell. cell \<noteq> None) cells = []"
    by (auto simp: filter_empty_conv)
  then have "spec_fill column ! 0 = None"
    by (simp add: spec_fill_def column nearest_earlier_0 nearest_later_def upt_conv_Cons
        del: upt_Suc)
  moreover have "0 < length (spec_fill column)"
    by (simp add: spec_fill_def column)
  ultimately show "None \<in> set (spec_fill column)"
    by (metis nth_mem)
qed

lemma spec_fill_complete: "None \<notin> set column \<Longrightarrow> spec_fill column = column"
proof -
  assume present: "None \<notin> set column"
  have "bfill (ffill column) = column"
  proof (rule nth_equalityI)
    show "length (bfill (ffill column)) = length column"
      by (simp add: bfill_length ffill_length)
  next
    fix i assume "i < length (bfill (ffill column))"
    then have i: "i < length column" by (simp add: bfill_length ffill_length)
    with present obtain v where v: "column ! i = Some v"
      by (metis nth_mem option.exhaust)
    with i have "ffill column ! i = Some v"
      by (simp add: ffill_def ffill_from_present)
    with i v show "bfill (ffill column) ! i = column ! i"
      by (simp add: bfill_present ffill_length)
  qed
  then show ?thesis by (simp add: fill_is_spec_fill)
qed

lemma ffill_frame_columns:
  "map open_price (ffill_frame seg) = ffill (map open_price seg)"
  "map high_price (ffill_frame seg) = ffill (map high_price seg)"
  "map low_price (ffill_frame seg) = ffill (map low_price seg)"
  "map close_price (ffill_frame seg) = ffill (map close_price seg)"
  "map volume (ffill_frame seg) = ffill (map volume seg)"
  "map close_time (ffill_frame seg) = ffill (map close_time seg)"
  "map quote_asset_volume (ffill_frame seg) = ffill (map quote_asset_volume seg)"
  "map number_of_trades (ffill_frame seg) = ffill (map number_of_trades seg)"
  "map taker_buy_base_asset_volume (ffill_frame seg) = ffill (map taker_buy_base_asset_volume seg)"
  "map taker_buy_quote_asset_volume (ffill_frame seg) = ffill (map taker_buy_quote_asset_volume seg)"
  "map open_time (ffill_frame seg) = map open_time seg"
  by (rule nth_equalityI; simp add: ffill_frame_def ffill_length)+

lemma bfill_frame_columns:
  "map open_price (bfill_frame seg) = bfill (map open_price seg)"
  "map high_price (bfill_frame seg) = bfill (map high_price seg)"
  "map low_price (bfill_frame seg) = bfill (map low_price seg)"
  "map close_price (bfill_frame seg) = bfill (map close_price seg)"
  "map volume (bfill_frame seg) = bfill (map volume seg)"
  "map close_time (bfill_frame seg) = bfill (map close_time seg)"
  "map quote_asset_volume (bfill_frame seg) = bfill (map quote_asset_volume seg)"
  "map number_of_trades (bfill_frame seg) = bfill (map number_of_trades seg)"
  "map taker_buy_base_asset_volume (bfill_frame seg) = bfill (map taker_buy_base_asset_volume seg)"
  "map taker_buy_quote_asset_volume (bfill_frame seg) = bfill (map taker_buy_quote_asset_volume seg)"
  "map open_time (bfill_frame seg) = map open_time seg"
  by (rule nth_equalityI; simp add: bfill_frame_def bfill_length)+

lemma complete_columns:
  assumes "\<not> isnull_any seg"
  shows "None \<notin> set (map open_price seg)" "None \<notin> set (map high_price seg)"
    "None \<notin> set (map low_price seg)" "None \<notin> set (map close_price seg)"
    "None \<notin> set (map volume seg)" "None \<notin> set (map close_time seg)"
    "None \<notin> set (map quote_asset_volume seg)" "None \<notin> set (map number_of_trades seg)"
    "None \<notin> set (map taker_buy_base_asset_volume seg)"
    "None \<notin> set (map taker_buy_quote_asset_volume seg)"
  using assms by (auto simp: isnull_any_def list_ex_iff)

lemma fillna_columns:
  "map open_price (fillna seg) = spec_fill (map open_price seg)"
  "map high_price (fillna seg) = spec_fill (map high_price seg)"
  "map low_price (fillna seg) = spec_fill (map low_price seg)"
  "map close_price (fillna seg) = spec_fill (map close_price seg)"
  "map volume (fillna seg) = spec_fill (map volume seg)"
  "map close_time (fillna seg) = spec_fill (map close_time seg)"
  "map quote_asset_volume (fillna seg) = spec_fill (map quote_asset_volume seg)"
  "map number_of_trades (fillna seg) = spec_fill (map number_of_trades seg)"
  "map taker_buy_base_asset_volume (fillna seg) = spec_fill (map taker_buy_base_asset_volume seg)"
  "map taker_buy_quote_asset_volume (fillna seg) = spec_fill (map taker_buy_quote_asset_volume seg)"
  "map open_time (fillna seg) = map open_time seg"
  by (cases "isnull_any seg";
      simp add: fillna_def bfill_frame_columns ffill_frame_columns fill_is_spec_fill
        spec_fill_complete [OF complete_columns(1)] spec_fill_complete [OF complete_columns(2)]
        spec_fill_complete [OF complete_columns(3)] spec_fill_complete [OF complete_columns(4)]
        spec_fill_complete [OF complete_columns(5)] spec_fill_complete [OF complete_columns(6)]
        spec_fill_complete [OF complete_columns(7)] spec_fill_complete [OF complete_columns(8)]
        spec_fill_complete [OF complete_columns(9)] spec_fill_complete [OF complete_columns(10)])+


text \<open>
  Claim C6, as amended. For a segment of at least 100 rows every column of the frame on
  which the indicators are computed is the column of the segment with each missing cell
  replaced by the nearest earlier value and, where there is none, by the nearest later
  value. Nothing looks for cells that are still missing afterwards: the indicator
  computations are run on that filled frame whatever the filling left. When they return,
  the rows written are computed from the filled frame and the segment is added to the
  combined output; when they raise, their exception ends the run and nothing is written for
  the segment. Either way one warning is logged when the segment had a missing cell.
\<close>

theorem missing_values_filled_then_processed:
  assumes "100 \<le> length segment"
  shows "map open_price (fillna segment) = spec_fill (map open_price segment)
       \<and> map high_price (fillna segment) = spec_fill (map high_price segment)
       \<and> map low_price (fillna segment) = spec_fill (map low_price segment)
       \<and> map close_price (fillna segment) = spec_fill (map close_price segment)
       \<and> map volume (fillna segment) = spec_fill (map volume segment)
       \<and> map close_time (fillna segment) = spec_fill (map close_time segment)
       \<and> map quote_asset_volume (fillna segment) = spec_fill (map quote_asset_volume segment)
       \<and> map number_of_trades (fillna segment) = spec_fill (map number_of_trades segment)
       \<and> map taker_buy_base_asset_volume (fillna segment)
           = spec_fill (map taker_buy_base_asset_volume segment)
       \<and> map taker_buy_quote_asset_volume (fillna segment)
           = spec_fill (map taker_buy_quote_asset_volume segment)
       \<and> map open_time (fillna segment) = map open_time segment
       \<and> (\<forall>cells. ta (fillna segment) = Inr cells \<longrightarrow>
            process_segment ta strftime idx segment st
              = Inr (st\<lparr>warnings := (if isnull_any segment
                                      then warnings st @ [Contains_missing_values (idx + 1)]
                                      else warnings st),
                       segment_files := segment_files st @
                         [(idx + 1,
                           map (strftime_row strftime)
                             (drop 99 (add_indicators cells (fillna segment))))],
                       combined_processed_segments := combined_processed_segments st @
                         [\<lparr>segment_id = idx + 1,
                           start_time = strftime (open_time (segment ! 99)),
                           end_time = map_option strftime (close_time (last (fillna segment))),
                           records =
                             map (strftime_row strftime)
                               (drop 99 (add_indicators cells (fillna segment)))\<rparr>]\<rparr>))
       \<and> (\<forall>e. ta (fillna segment) = Inl e \<longrightarrow>
            process_segment ta strftime idx segment st
              = Inl (e, st\<lparr>warnings := (if isnull_any segment
                                         then warnings st @ [Contains_missing_values (idx + 1)]
                                         else warnings st)\<rparr>))"
proof -
  have returns: "process_segment ta strftime idx segment st
      = Inr (st\<lparr>warnings := (if isnull_any segment
                              then warnings st @ [Contains_missing_values (idx + 1)]
                              else warnings st),
               segment_files := segment_files st @
                 [(idx + 1,
                   map (strftime_row strftime) (drop 99 (add_indicators cells (fillna segment))))],
               combined_processed_segments := combined_processed_segments st @
                 [\<lparr>segment_id = idx + 1,
                   start_time = strftime (open_time (segment ! 99)),
                   end_time = map_option strftime (close_time (last (fillna segment))),
                   records =
                     map (strftime_row strftime)
                       (drop 99 (add_indicators cells (fillna segment)))\<rparr>]\<rparr>)"
    if "ta (fillna segment) = Inr cells" for cells
  proof -
    from that have "processed_data ta strftime segment
        = Inr (map (strftime_row strftime) (drop 99 (add_indicators cells (fillna segment))))"
      by (simp add: processed_data_def)
    from process_segment_long [OF assms this] show ?thesis .
  qed
  have raises: "process_segment ta strftime idx segment st
      = Inl (e, st\<lparr>warnings := (if isnull_any segment
                                 then warnings st @ [Contains_missing_values (idx + 1)]
                                 else warnings st)\<rparr>)"
    if "ta (fillna segment) = Inl e" for e
    using assms that by (intro process_segment_raises) simp_all
  from returns raises show ?thesis
    by (simp only: fillna_columns simp_thms) blast
qed

lemma gap_frame_length: "length (gap_frame n) = n"
  by (simp add: gap_frame_def)

lemma gap_frame_null: "5 < n \<Longrightarrow> isnull_any (gap_frame n)"
  by (auto simp: isnull_any_def list_ex_iff gap_frame_def intro!: bexI [of _ 5])

theorem missing_values_filled_then_processed_witness:
  "100 \<le> length (gap_frame 100)
   \<and> close_price (gap_frame 100 ! 4) = Some 104
   \<and> close_price (gap_frame 100 ! 5) = None
   \<and> map close_price (fillna (gap_frame 100)) ! 5 = Some 104
   \<and> sample_ta (fillna (gap_frame 100)) = Inr sample_cells
   \<and> process_segment sample_ta sample_strftime 0 (gap_frame 100) start_state
       = Inr \<lparr>segment_files =
                [(1, map (strftime_row sample_strftime)
                       (drop 99 (add_indicators sample_cells (fillna (gap_frame 100)))))],
              combined_processed_segments =
                [\<lparr>segment_id = 1,
                  start_time = sample_strftime (open_time (gap_frame 100 ! 99)),
                  end_time = map_option sample_strftime (close_time (last (fillna (gap_frame 100)))),
                  records = map (strftime_row sample_strftime)
                              (drop 99 (add_indicators sample_cells (fillna (gap_frame 100))))\<rparr>],
              combined_file = None,
              warnings = [Contains_missing_values 1]\<rparr>"
proof -
  have len: "100 \<le> length (gap_frame 100)"
    by (simp add: gap_frame_length)
  have six: "take 6 (map close_price (gap_frame 100))
      = [Some 100, Some 101, Some 102, Some 103, Some 104, None]"
    by (simp add: gap_frame_def take_map sample_kline_def upt_rec)
  have filled: "spec_fill (map close_price (gap_frame 100)) ! 5 = Some 104"
    by (simp add: spec_fill_def gap_frame_length nearest_earlier_def six)
  have returns: "sample_ta (fillna (gap_frame 100)) = Inr sample_cells"
    by (simp add: sample_ta_def)
  from missing_values_filled_then_processed [OF len, of sample_ta sample_strftime 0 start_state]
    filled returns
  show ?thesis
    by (simp add: gap_frame_null start_state_def gap_frame_length)
      (simp add: gap_frame_def sample_kline_def)
qed

lemma no_volume_frame_length: "length (no_volume_frame n) = n"
  by (simp add: no_volume_frame_def)

lemma no_volume_frame_hourly: "hourly_run (no_volume_frame n)"
  by (simp add: hourly_run_iff no_volume_frame_def sample_kline_def hour_def)

lemma no_volume_frame_null: "0 < n \<Longrightarrow> isnull_any (no_volume_frame n)"
  by (auto simp: isnull_any_def list_ex_iff no_volume_frame_def intro!: bexI [of _ 0])

lemma spec_fill_all_missing:
  assumes "\<forall>cell \<in> set column. cell = None"
  shows "spec_fill column = column"
proof (rule nth_equalityI)
  show "length (spec_fill column) = length column"
    by (simp add: spec_fill_def)
next
  fix i assume "i < length (spec_fill column)"
  then have i: "i < length column" by (simp add: spec_fill_def)
  have "filter (\<lambda>cell. cell \<noteq> None) (take (Suc i) column) = []"
    using assms by (auto simp: filter_empty_conv dest: in_set_takeD)
  moreover have "filter (\<lambda>cell. cell \<noteq> None) (drop i column) = []"
    using assms by (auto simp: filter_empty_conv dest: in_set_dropD)
  moreover have "column ! i = None"
    using assms i by simp
  ultimately show "spec_fill column ! i = column ! i"
    using i by (simp add: spec_fill_def nearest_earlier_def nearest_later_def)
qed

lemma no_volume_frame_filled:
  assumes "i < n"
  shows "volume (fillna (no_volume_frame n) ! i) = None"
proof -
  have "map volume (fillna (no_volume_frame n)) = map volume (no_volume_frame n)"
    by (simp only: fillna_columns) (rule spec_fill_all_missing, simp add: no_volume_frame_def)
  then have "map volume (fillna (no_volume_frame n)) ! i = map volume (no_volume_frame n) ! i"
    by simp
  with assms show ?thesis
    by (simp add: fillna_length no_volume_frame_length) (simp add: no_volume_frame_def)
qed

text \<open>
  Claim C6 as stated fails: in a segment of 100 rows whose volume is missing in every row
  the gap remains after both passes, and the segment is not rejected. With a library that
  returns on that frame the run completes and the combined output holds the segment, with
  one row whose volume is still missing.
\<close>

theorem unfilled_gap_is_processed:
  "map volume (no_volume_frame 100) = replicate 100 None
   \<and> map volume (fillna (no_volume_frame 100)) = replicate 100 None
   \<and> process_crypto_data sample_ta sample_strftime (no_volume_frame 100)
     = Inr \<lparr>segment_files =
              [(1, map (strftime_row sample_strftime)
                     (drop 99 (add_indicators sample_cells (fillna (no_volume_frame 100)))))],
            combined_processed_segments =
              [\<lparr>segment_id = 1, start_time = ''2024-01-05 03:00:00'',
                end_time = Some ''2024-01-05 03:59:59'',
                records = map (strftime_row sample_strftime)
                            (drop 99 (add_indicators sample_cells (fillna (no_volume_frame 100))))\<rparr>],
            combined_file = Some
              [\<lparr>segment_id = 1, start_time = ''2024-01-05 03:00:00'',
                end_time = Some ''2024-01-05 03:59:59'',
                records = map (strftime_row sample_strftime)
                            (drop 99 (add_indicators sample_cells (fillna (no_volume_frame 100))))\<rparr>],
            warnings = [Contains_missing_values 1]\<rparr>
   \<and> map (volume \<circ> bar)
         (map (strftime_row sample_strftime)
            (drop 99 (add_indicators sample_cells (fillna (no_volume_frame 100))))) = [None]"
proof -
  define rows where "rows = map (strftime_row sample_strftime)
      (drop 99 (add_indicators sample_cells (fillna (no_volume_frame 100))))"
  have data: "processed_data sample_ta sample_strftime (no_volume_frame 100) = Inr rows"
    by (simp add: processed_data_def sample_ta_def rows_def)
  have start: "sample_strftime (open_time (no_volume_frame 100 ! 99)) = ''2024-01-05 03:00:00''"
    by (simp add: no_volume_frame_def sample_kline_def sample_strftime_def sample_times_def)
  have "close_time (fillna (no_volume_frame 100) ! 99) = Some 1704427199"
    by (rule fillna_close_time_present)
      (simp_all add: no_volume_frame_def sample_kline_def)
  moreover have "last (fillna (no_volume_frame 100)) = fillna (no_volume_frame 100) ! 99"
    using fillna_length [of "no_volume_frame 100"]
    by (subst last_conv_nth) (auto simp: no_volume_frame_length)
  ultimately have final: "map_option sample_strftime (close_time (last (fillna (no_volume_frame 100))))
      = Some ''2024-01-05 03:59:59''"
    by (simp add: sample_strftime_def sample_times_def)
  have run: "process_crypto_data sample_ta sample_strftime (no_volume_frame 100)
     = Inr \<lparr>segment_files = [(1, rows)],
            combined_processed_segments =
              [\<lparr>segment_id = 1, start_time = ''2024-01-05 03:00:00'',
                end_time = Some ''2024-01-05 03:59:59'', records = rows\<rparr>],
            combined_file = Some
              [\<lparr>segment_id = 1, start_time = ''2024-01-05 03:00:00'',
                end_time = Some ''2024-01-05 03:59:59'', records = rows\<rparr>],
            warnings = [Contains_missing_values 1]\<rparr>"
    using process_hourly_frame_long [OF no_volume_frame_hourly _ data]
    by (simp add: no_volume_frame_length no_volume_frame_null start final)
  have column: "map volume (no_volume_frame 100) = replicate 100 None"
    by (rule nth_equalityI) (simp_all add: no_volume_frame_def)
  have filled: "map volume (fillna (no_volume_frame 100)) = replicate 100 None"
    by (rule nth_equalityI)
      (simp_all add: fillna_length no_volume_frame_length no_volume_frame_filled)
  have len: "length rows = 1"
    using processed_data_length [OF data] by (simp add: no_volume_frame_length)
  have "volume (bar (rows ! 0)) = None"
    using processed_data_bar(3) [OF data, of 0] no_volume_frame_filled [of 99 100]
    by (simp add: no_volume_frame_length)
  with len have "map (volume \<circ> bar) rows = [None]"
    by (cases rows) auto
  with run column filled show ?thesis
    unfolding rows_def by blast
qed

subsection \<open>The run on 150 contiguous rows\<close>

lemma moving_averages_populated:
  assumes "\<not> isnull_any seg" and "98 \<le> j" and "j < length seg"
  shows "MA7 (add_indicators cells seg ! j) \<noteq> None \<and> MA25 (add_indicators cells seg ! j) \<noteq> None
       \<and> MA99 (add_indicators cells seg ! j) \<noteq> None \<and> MA50 (add_indicators cells seg ! j) \<noteq> None"
proof -
  define prices where "prices = map (\<lambda>row. the (close_price row)) seg"
  have "close_price row = Some (the (close_price row))" if "row \<in> set seg" for row
    using complete_columns(4) [OF assms(1)] that by (cases "close_price row") force+
  then have column: "map close_price seg = map Some prices"
    by (simp add: prices_def comp_def)
  have "rolling_mean window (map close_price seg) ! j \<noteq> None" if "window \<le> 99" for window
    unfolding column
    using rolling_mean_present [of j prices window] assms(2,3) that by (simp add: prices_def)
  from this [of 7] this [of 25] this [of 99] this [of 50] assms(3) show ?thesis
    by (simp add: add_indicators_def)
qed

lemma contiguous_150_rows:
  assumes "hourly_run df" and "length df = 150" and "\<not> isnull_any df" and "ta df = Inr cells"
  shows "split_into_segments df = Inr [df]
       \<and> (\<exists>st rows. process_crypto_data ta strftime df = Inr st
             \<and> map records (combined_processed_segments st) = [rows]
             \<and> length rows = 51
             \<and> warnings st = []
             \<and> (\<forall>i < 51. open_time (bar (rows ! i)) = strftime (open_time (df ! (99 + i)))
                   \<and> MA7 (rows ! i) \<noteq> None \<and> MA25 (rows ! i) \<noteq> None
                   \<and> MA99 (rows ! i) \<noteq> None \<and> MA50 (rows ! i) \<noteq> None))"
proof -
  from assms(2) have ne: "df \<noteq> []" by auto
  have split: "split_into_segments df = Inr [df]"
    using assms(1) ne by (rule split_hourly_frame)
  define rows where "rows = map (strftime_row strftime) (drop 99 (add_indicators cells df))"
  have data: "processed_data ta strftime df = Inr rows"
    using assms(4) by (simp add: processed_data_def fillna_complete [OF assms(3)] rows_def)
  have len: "length rows = 51"
    using processed_data_length [OF data] assms(2) by simp
  have run: "\<exists>st. process_crypto_data ta strftime df = Inr st
      \<and> map records (combined_processed_segments st) = [rows] \<and> warnings st = []"
    using process_hourly_frame_long [OF assms(1) _ data] assms(2,3) by simp
  have each: "open_time (bar (rows ! i)) = strftime (open_time (df ! (99 + i)))
      \<and> MA7 (rows ! i) \<noteq> None \<and> MA25 (rows ! i) \<noteq> None
      \<and> MA99 (rows ! i) \<noteq> None \<and> MA50 (rows ! i) \<noteq> None" if "i < 51" for i
  proof -
    from that assms(2) have i: "i < length df - 99" by simp
    from moving_averages_populated [OF assms(3), of "99 + i" cells] that assms(2)
    show ?thesis
      using processed_data_bar(1) [OF data i]
      by (simp add: rows_def add_indicators_length strftime_row_def)
  qed
  from run obtain st where st: "process_crypto_data ta strftime df = Inr st"
      "map records (combined_processed_segments st) = [rows]" "warnings st = []"
    by auto
  from each have every: "\<forall>i < 51. open_time (bar (rows ! i)) = strftime (open_time (df ! (99 + i)))
      \<and> MA7 (rows ! i) \<noteq> None \<and> MA25 (rows ! i) \<noteq> None
      \<and> MA99 (rows ! i) \<noteq> None \<and> MA50 (rows ! i) \<noteq> None"
    by blast
  from st len every have "\<exists>st rows. process_crypto_data ta strftime df = Inr st
      \<and> map records (combined_processed_segments st) = [rows]
      \<and> length rows = 51
      \<and> warnings st = []
      \<and> (\<forall>i < 51. open_time (bar (rows ! i)) = strftime (open_time (df ! (99 + i)))
            \<and> MA7 (rows ! i) \<noteq> None \<and> MA25 (rows ! i) \<noteq> None
            \<and> MA99 (rows ! i) \<noteq> None \<and> MA50 (rows ! i) \<noteq> None)"
    by (intro exI [of _ st] exI [of _ rows]) simp
  with split show ?thesis ..
qed

end
